theory Spec2Isabelle
  imports Main "HOL-Library.Char_ord" "HOL-Library.List_Lexorder" "HOL-Library.Multiset"
begin

section \<open>Data model\<close>

text \<open>
  The quiz records of the server storage (\<^verbatim>\<open>FileStorage\<close>).  Strings are lists of code
  units below 256.  A field that may be \<^verbatim>\<open>undefined\<close> is an option; timestamps are
  milliseconds since the epoch, as \<^verbatim>\<open>getTime()\<close> reads them.  Fields that none of the
  operations below reads (timer, category, password, history, lastTaken) are left out.
\<close>

record Question =
  question :: string
  answerDescription :: string
  options :: "string list"
  correctAnswer :: string
  questionImages :: "string list"
  answerImages :: "string list"

record InsertQuiz =
  uniqueId :: "string option"
  title :: string
  description :: string
  questions :: "Question list"
  isPublic :: bool
  version :: "int option"
  createdAt :: "int option"

text \<open>A stored quiz is an \<^verbatim>\<open>InsertQuiz\<close> with the numeric key \<^verbatim>\<open>id\<close> of the collection.\<close>

record Quiz = InsertQuiz +
  id_q :: nat

text \<open>
  The collection is a JavaScript \<^verbatim>\<open>Map\<close> from \<^verbatim>\<open>id\<close> to quiz, which iterates in insertion
  order: a list of quizzes, each stored under its own \<^verbatim>\<open>id\<close>.
\<close>

record Storage =
  quizCollection :: "Quiz list"
  quizCurrentId :: nat

section \<open>Strings\<close>

text \<open>\<^verbatim>\<open>toLowerCase\<close> on code units below 256: A to Z, and the upper-case letters of Latin-1.\<close>

definition toLowerChar :: "char \<Rightarrow> char" where
  "toLowerChar c =
     (let n = (of_char c :: nat) in
      if (65 \<le> n \<and> n \<le> 90) \<or> (192 \<le> n \<and> n \<le> 222 \<and> n \<noteq> 215)
      then char_of (n + 32) else c)"

definition toLowerCase :: "string \<Rightarrow> string" where
  "toLowerCase s = map toLowerChar s"

text \<open>The white space that \<^verbatim>\<open>trim\<close> strips, among the code units below 256.\<close>

definition isWhiteSpace :: "char \<Rightarrow> bool" where
  "isWhiteSpace c =
     (let n = (of_char c :: nat) in (9 \<le> n \<and> n \<le> 13) \<or> n = 32 \<or> n = 160)"

definition trim :: "string \<Rightarrow> string" where
  "trim s = rev (dropWhile isWhiteSpace (rev (dropWhile isWhiteSpace s)))"

text \<open>\<^verbatim>\<open>s.toLowerCase().trim()\<close>, the normal form used for every comparison.\<close>

definition normalized :: "string \<Rightarrow> string" where
  "normalized s = trim (toLowerCase s)"

text \<open>\<^verbatim>\<open>Array.prototype.join\<close>.\<close>

fun join :: "string \<Rightarrow> string list \<Rightarrow> string" where
  "join sep [] = []"
| "join sep [x] = x"
| "join sep (x # y # ys) = x @ sep @ join sep (y # ys)"

text \<open>Decimal digits of a number, as a template literal prints it.\<close>

fun showNat :: "nat \<Rightarrow> string" where
  "showNat n =
     (if n < 10 then [char_of (48 + n)]
      else showNat (n div 10) @ [char_of (48 + n mod 10)])"

declare showNat.simps [simp del]

definition hexDigit :: "nat \<Rightarrow> char" where
  "hexDigit d = (if d < 10 then char_of (48 + d) else char_of (87 + d))"

text \<open>\<^verbatim>\<open>JSON.stringify\<close> of a string: quote, backslash and control characters are escaped.\<close>

definition jsonEscape :: "char \<Rightarrow> string" where
  "jsonEscape c =
     (let n = (of_char c :: nat) in
      if n = 34 then [CHR 0x5C, CHR 0x22]
      else if n = 92 then [CHR 0x5C, CHR 0x5C]
      else if n = 8 then [CHR 0x5C, CHR ''b'']
      else if n = 12 then [CHR 0x5C, CHR ''f'']
      else if n = 10 then [CHR 0x5C, CHR ''n'']
      else if n = 13 then [CHR 0x5C, CHR ''r'']
      else if n = 9 then [CHR 0x5C, CHR ''t'']
      else if n < 32 then [CHR 0x5C, CHR ''u'', CHR ''0'', CHR ''0'', hexDigit (n div 16), hexDigit (n mod 16)]
      else [c])"

definition jsonString :: "string \<Rightarrow> string" where
  "jsonString s = [CHR 0x22] @ concat (map jsonEscape s) @ [CHR 0x22]"

section \<open>Content hash\<close>

text \<open>The simplified representation of a question that \<^verbatim>\<open>createContentHash\<close> builds.\<close>

record QuestionData =
  qd_question :: string
  qd_options :: string
  qd_correctAnswer :: string

definition questionData :: "Question \<Rightarrow> QuestionData" where
  "questionData q =
     \<lparr> qd_question = normalized (question q),
       qd_options = join ''|'' (sort (map normalized (options q))),
       qd_correctAnswer = normalized (correctAnswer q) \<rparr>"

definition jsonQuestionData :: "QuestionData \<Rightarrow> string" where
  "jsonQuestionData d =
     ''{'' @ jsonString ''question'' @ '':'' @ jsonString (qd_question d) @ '','' @
     jsonString ''options'' @ '':'' @ jsonString (qd_options d) @ '','' @
     jsonString ''correctAnswer'' @ '':'' @ jsonString (qd_correctAnswer d) @ ''}''"

definition jsonArray :: "QuestionData list \<Rightarrow> string" where
  "jsonArray ds = ''['' @ join '','' (map jsonQuestionData ds) @ '']''"

text \<open>
  \<^verbatim>\<open>createContentHash\<close>.  The questions are sorted with
  \<^verbatim>\<open>a.question.localeCompare(b.question)\<close>; the collation of the host is the parameter
  \<open>ck\<close>, its sort key.  \<^verbatim>\<open>Array.prototype.sort\<close> is stable, as \<^const>\<open>sort_key\<close> is.
\<close>

definition createContentHash :: "(string \<Rightarrow> 'k::linorder) \<Rightarrow> 'a InsertQuiz_scheme \<Rightarrow> string" where
  "createContentHash ck quiz =
     (let titleNormalized = normalized (title quiz);
          questionsData = sort_key (\<lambda>d. ck (qd_question d)) (map questionData (questions quiz))
      in titleNormalized @ '':'' @ showNat (length questionsData) @ '':'' @ jsonArray questionsData)"

section \<open>Which copy is kept\<close>

text \<open>
  The test \<^verbatim>\<open>keepNew\<close> of the first two passes: both versions truthy and the new one greater,
  or both creation dates present and the new one later.
\<close>

definition versionGreater :: "int option \<Rightarrow> int option \<Rightarrow> bool" where
  "versionGreater v w =
     (case v of None \<Rightarrow> False
      | Some a \<Rightarrow> (case w of None \<Rightarrow> False | Some b \<Rightarrow> a \<noteq> 0 \<and> b \<noteq> 0 \<and> a > b))"

definition createdLater :: "int option \<Rightarrow> int option \<Rightarrow> bool" where
  "createdLater c d =
     (case c of None \<Rightarrow> False
      | Some a \<Rightarrow> (case d of None \<Rightarrow> False | Some b \<Rightarrow> a > b))"

definition keepNew :: "'a InsertQuiz_scheme \<Rightarrow> 'b InsertQuiz_scheme \<Rightarrow> bool" where
  "keepNew quiz existingQuiz =
     (versionGreater (version quiz) (version existingQuiz) \<or>
      createdLater (createdAt quiz) (createdAt existingQuiz))"

text \<open>The test \<^verbatim>\<open>keepQuiz1\<close> of the third pass, where a missing version counts as 0.\<close>

definition keepQuiz1 :: "'a InsertQuiz_scheme \<Rightarrow> 'b InsertQuiz_scheme \<Rightarrow> bool" where
  "keepQuiz1 quiz1 quiz2 =
     ((case version quiz1 of Some v \<Rightarrow> v | None \<Rightarrow> 0) > (case version quiz2 of Some v \<Rightarrow> v | None \<Rightarrow> 0) \<or>
      createdLater (createdAt quiz1) (createdAt quiz2))"

text \<open>\<^verbatim>\<open>!quiz.uniqueId\<close> holds for a missing and for an empty identifier.\<close>

definition hasUniqueId :: "'a InsertQuiz_scheme \<Rightarrow> bool" where
  "hasUniqueId quiz = (case uniqueId quiz of None \<Rightarrow> False | Some u \<Rightarrow> u \<noteq> [])"

section \<open>Question similarity\<close>

definition questionMatches :: "Question \<Rightarrow> Question \<Rightarrow> bool" where
  "questionMatches q1 q2 =
     (normalized (question q1) = normalized (question q2) \<or>
      normalized (correctAnswer q1) = normalized (correctAnswer q2))"

text \<open>The nested iteration: each question of the first quiz counts once, at its first hit.\<close>

definition matchCount :: "Question list \<Rightarrow> Question list \<Rightarrow> nat" where
  "matchCount qs1 qs2 = length (filter (\<lambda>q1. list_ex (questionMatches q1) qs2) qs1)"

text \<open>
  \<^verbatim>\<open>Math.abs(n1 - n2) > 1\<close> skips the pair.  The threshold is \<^verbatim>\<open>Math.min(n1, n2) * 0.8\<close> in
  double arithmetic; for array lengths the product is the exact integer when
  \<open>4 * min\<close> is a multiple of 5 and lies strictly between two integers otherwise, so
  \<^verbatim>\<open>matchCount >= threshold\<close> is \<open>4 * min \<le> 5 * matchCount\<close>.
\<close>

definition lengthsComparable :: "Question list \<Rightarrow> Question list \<Rightarrow> bool" where
  "lengthsComparable qs1 qs2 = (\<not> (abs (int (length qs1) - int (length qs2)) > 1))"

definition similarQuizzes :: "'a InsertQuiz_scheme \<Rightarrow> 'b InsertQuiz_scheme \<Rightarrow> bool" where
  "similarQuizzes quiz1 quiz2 =
     (lengthsComparable (questions quiz1) (questions quiz2) \<and>
      4 * min (length (questions quiz1)) (length (questions quiz2))
        \<le> 5 * matchCount (questions quiz1) (questions quiz2))"

section \<open>Duplicate removal\<close>

text \<open>The local variables of \<^verbatim>\<open>removeDuplicateQuizzes\<close>.\<close>

record Bookkeeping =
  titleMap :: "(string \<times> Quiz list) list"
  uniqueIdMap :: "string \<rightharpoonup> Quiz"
  contentHashMap :: "string \<rightharpoonup> Quiz"
  quizzesToKeep :: "nat set"
  duplicatesToRemove :: "Quiz list"

definition emptyBookkeeping :: Bookkeeping where
  "emptyBookkeeping =
     \<lparr> titleMap = [], uniqueIdMap = Map.empty, contentHashMap = Map.empty,
       quizzesToKeep = {}, duplicatesToRemove = [] \<rparr>"

text \<open>First pass, one iteration: duplicates by content hash.\<close>

definition firstPassStep :: "(string \<Rightarrow> 'k::linorder) \<Rightarrow> Bookkeeping \<Rightarrow> Quiz \<Rightarrow> Bookkeeping" where
  "firstPassStep ck b quiz =
     (let contentHash = createContentHash ck quiz in
      case contentHashMap b contentHash of
        None \<Rightarrow>
          b\<lparr> contentHashMap := (contentHashMap b)(contentHash \<mapsto> quiz),
             quizzesToKeep := insert (id_q quiz) (quizzesToKeep b) \<rparr>
      | Some existingQuiz \<Rightarrow>
          if id_q quiz = id_q existingQuiz then b
          else if keepNew quiz existingQuiz then
            b\<lparr> quizzesToKeep := insert (id_q quiz) (quizzesToKeep b - {id_q existingQuiz}),
               contentHashMap := (contentHashMap b)(contentHash \<mapsto> quiz),
               duplicatesToRemove := duplicatesToRemove b @ [existingQuiz] \<rparr>
          else
            b\<lparr> duplicatesToRemove := duplicatesToRemove b @ [quiz] \<rparr>)"

text \<open>Second pass, one iteration: kept quizzes that share a \<^verbatim>\<open>uniqueId\<close>.\<close>

definition secondPassStep :: "Bookkeeping \<Rightarrow> Quiz \<Rightarrow> Bookkeeping" where
  "secondPassStep b quiz =
     (if id_q quiz \<notin> quizzesToKeep b \<or> \<not> hasUniqueId quiz then b
      else
        (case uniqueIdMap b (the (uniqueId quiz)) of
           None \<Rightarrow> b\<lparr> uniqueIdMap := (uniqueIdMap b)(the (uniqueId quiz) \<mapsto> quiz) \<rparr>
         | Some existingQuiz \<Rightarrow>
             if id_q quiz = id_q existingQuiz then b
             else if keepNew quiz existingQuiz then
               b\<lparr> quizzesToKeep := quizzesToKeep b - {id_q existingQuiz},
                  uniqueIdMap := (uniqueIdMap b)(the (uniqueId quiz) \<mapsto> quiz),
                  duplicatesToRemove := duplicatesToRemove b @ [existingQuiz] \<rparr>
             else
               b\<lparr> quizzesToKeep := quizzesToKeep b - {id_q quiz},
                  duplicatesToRemove := duplicatesToRemove b @ [quiz] \<rparr>))"

text \<open>Third pass: the kept quizzes are grouped by normalized title, in order of first occurrence.\<close>

fun pushTitle :: "string \<Rightarrow> Quiz \<Rightarrow> (string \<times> Quiz list) list \<Rightarrow> (string \<times> Quiz list) list" where
  "pushTitle t quiz [] = [(t, [quiz])]"
| "pushTitle t quiz ((t', qs) # rest) =
     (if t' = t then (t', qs @ [quiz]) # rest else (t', qs) # pushTitle t quiz rest)"

definition groupStep :: "Bookkeeping \<Rightarrow> Quiz \<Rightarrow> Bookkeeping" where
  "groupStep b quiz =
     (if id_q quiz \<notin> quizzesToKeep b then b
      else b\<lparr> titleMap := pushTitle (normalized (title quiz)) quiz (titleMap b) \<rparr>)"

text \<open>
  The loop over \<open>j\<close> for a fixed \<open>quiz1\<close>: the quizzes after it in its title group.  The loop
  ends early when \<open>quiz1\<close> itself is removed.
\<close>

fun innerLoop :: "Quiz \<Rightarrow> Quiz list \<Rightarrow> Bookkeeping \<Rightarrow> Bookkeeping" where
  "innerLoop quiz1 [] b = b"
| "innerLoop quiz1 (quiz2 # rest) b =
     (if id_q quiz2 \<notin> quizzesToKeep b then innerLoop quiz1 rest b
      else if \<not> lengthsComparable (questions quiz1) (questions quiz2) then innerLoop quiz1 rest b
      else if 4 * min (length (questions quiz1)) (length (questions quiz2))
                \<le> 5 * matchCount (questions quiz1) (questions quiz2) then
        (if keepQuiz1 quiz1 quiz2 then
           innerLoop quiz1 rest
             (b\<lparr> quizzesToKeep := quizzesToKeep b - {id_q quiz2},
                 duplicatesToRemove := duplicatesToRemove b @ [quiz2] \<rparr>)
         else
           b\<lparr> quizzesToKeep := quizzesToKeep b - {id_q quiz1},
              duplicatesToRemove := duplicatesToRemove b @ [quiz1] \<rparr>)
      else innerLoop quiz1 rest b)"

text \<open>The loop over \<open>i\<close>.\<close>

fun outerLoop :: "Quiz list \<Rightarrow> Bookkeeping \<Rightarrow> Bookkeeping" where
  "outerLoop [] b = b"
| "outerLoop (quiz1 # rest) b =
     (if id_q quiz1 \<notin> quizzesToKeep b then outerLoop rest b
      else outerLoop rest (innerLoop quiz1 rest b))"

definition checkTitleGroup :: "Bookkeeping \<Rightarrow> string \<times> Quiz list \<Rightarrow> Bookkeeping" where
  "checkTitleGroup b entry =
     (if length (snd entry) > 1 then outerLoop (snd entry) b else b)"

text \<open>The three passes over \<^verbatim>\<open>allQuizzes\<close>.\<close>

definition findDuplicates :: "(string \<Rightarrow> 'k::linorder) \<Rightarrow> Quiz list \<Rightarrow> Bookkeeping" where
  "findDuplicates ck allQuizzes =
     (let b1 = foldl (firstPassStep ck) emptyBookkeeping allQuizzes;
          b2 = foldl secondPassStep (b1\<lparr> uniqueIdMap := Map.empty \<rparr>) allQuizzes;
          b3 = foldl groupStep (b2\<lparr> titleMap := [] \<rparr>) allQuizzes
      in foldl checkTitleGroup b3 (titleMap b3))"

text \<open>\<^verbatim>\<open>Map.prototype.delete\<close> on the collection, and the loop that deletes the duplicates.\<close>

definition mapHas :: "nat \<Rightarrow> Quiz list \<Rightarrow> bool" where
  "mapHas i qs = list_ex (\<lambda>q. id_q q = i) qs"

definition mapDelete :: "nat \<Rightarrow> Quiz list \<Rightarrow> Quiz list" where
  "mapDelete i qs = filter (\<lambda>q. id_q q \<noteq> i) qs"

definition deleteStep :: "nat \<times> Quiz list \<Rightarrow> Quiz \<Rightarrow> nat \<times> Quiz list" where
  "deleteStep acc quiz =
     (if mapHas (id_q quiz) (snd acc) then (fst acc + 1, mapDelete (id_q quiz) (snd acc)) else acc)"

text \<open>\<^verbatim>\<open>removeDuplicateQuizzes\<close>: the number of quizzes deleted, and the storage after.\<close>

definition removeDuplicateQuizzes :: "(string \<Rightarrow> 'k::linorder) \<Rightarrow> Storage \<Rightarrow> nat \<times> Storage" where
  "removeDuplicateQuizzes ck s =
     (let allQuizzes = quizCollection s in
      if length allQuizzes \<le> 1 then (0, s)
      else
        (let b = findDuplicates ck allQuizzes;
             r = foldl deleteStep (0, allQuizzes) (duplicatesToRemove b)
         in (fst r, s\<lparr> quizCollection := snd r \<rparr>)))"

section \<open>Storage operations\<close>

text \<open>\<^verbatim>\<open>Map.prototype.get\<close> and \<^verbatim>\<open>set\<close>: a value set under an existing key keeps its place.\<close>

definition mapGet :: "nat \<Rightarrow> Quiz list \<Rightarrow> Quiz option" where
  "mapGet i qs = find (\<lambda>q. id_q q = i) qs"

definition mapSet :: "Quiz \<Rightarrow> Quiz list \<Rightarrow> Quiz list" where
  "mapSet quiz qs =
     (if mapHas (id_q quiz) qs then map (\<lambda>q. if id_q q = id_q quiz then quiz else q) qs
      else qs @ [quiz])"

definition getQuizByUniqueId :: "Storage \<Rightarrow> string \<Rightarrow> Quiz option" where
  "getQuizByUniqueId s u = find (\<lambda>quiz. uniqueId quiz = Some u) (quizCollection s)"

definition getPublicQuizzes :: "Storage \<Rightarrow> Quiz list" where
  "getPublicQuizzes s = filter isPublic (quizCollection s)"

text \<open>
  \<^verbatim>\<open>createQuiz\<close>.  The identifier generator \<^verbatim>\<open>uuidv4()\<close> and the clock \<^verbatim>\<open>new Date()\<close> are
  parameters, read at the \<^verbatim>\<open>id\<close> that the call assigns.
\<close>

definition createQuiz ::
  "(nat \<Rightarrow> string) \<Rightarrow> (nat \<Rightarrow> int) \<Rightarrow> Storage \<Rightarrow> InsertQuiz \<Rightarrow> Quiz \<times> Storage" where
  "createQuiz uuidv4 now s quiz =
     (let i = quizCurrentId s;
          newQuiz =
            \<lparr> uniqueId = (if hasUniqueId quiz then uniqueId quiz else Some (uuidv4 i)),
              title = title quiz,
              description = description quiz,
              questions = questions quiz,
              isPublic = isPublic quiz,
              version = Some (case version quiz of None \<Rightarrow> 1 | Some v \<Rightarrow> if v = 0 then 1 else v),
              createdAt = Some (case createdAt quiz of None \<Rightarrow> now i | Some t \<Rightarrow> t),
              id_q = i \<rparr>
      in (newQuiz, s\<lparr> quizCollection := mapSet newQuiz (quizCollection s), quizCurrentId := i + 1 \<rparr>))"

text \<open>
  \<^verbatim>\<open>updateQuiz\<close>: the update is spread over the existing record, and the version is the stored
  one plus 1, or 1 when the stored one is missing or 0.  The update is a whole quiz, as
  \<^verbatim>\<open>syncQuizzes\<close> passes it; an option that is \<open>None\<close> in the update is a key that the update
  does not have.
\<close>

definition updateQuiz :: "Storage \<Rightarrow> nat \<Rightarrow> InsertQuiz \<Rightarrow> Quiz option \<times> Storage" where
  "updateQuiz s i quizUpdate =
     (case mapGet i (quizCollection s) of
        None \<Rightarrow> (None, s)
      | Some existingQuiz \<Rightarrow>
          (let updatedQuiz =
                 \<lparr> uniqueId = (case uniqueId quizUpdate of None \<Rightarrow> uniqueId existingQuiz | Some u \<Rightarrow> Some u),
                   title = title quizUpdate,
                   description = description quizUpdate,
                   questions = questions quizUpdate,
                   isPublic = isPublic quizUpdate,
                   version = Some (case version existingQuiz of None \<Rightarrow> 1
                                   | Some v \<Rightarrow> if v = 0 then 1 else v + 1),
                   createdAt = (case createdAt quizUpdate of None \<Rightarrow> createdAt existingQuiz | Some t \<Rightarrow> Some t),
                   id_q = id_q existingQuiz \<rparr>
           in (Some updatedQuiz, s\<lparr> quizCollection := mapSet updatedQuiz (quizCollection s) \<rparr>)))"

definition deleteQuiz :: "Storage \<Rightarrow> nat \<Rightarrow> bool \<times> Storage" where
  "deleteQuiz s i =
     (mapHas i (quizCollection s), s\<lparr> quizCollection := mapDelete i (quizCollection s) \<rparr>)"

text \<open>\<^verbatim>\<open>deletePrivateQuizzes\<close>: every quiz that is not public is deleted by its \<^verbatim>\<open>id\<close>.\<close>

definition deletePrivateQuizzes :: "Storage \<Rightarrow> nat \<times> Storage" where
  "deletePrivateQuizzes s =
     (let privateQuizzes = filter (\<lambda>quiz. \<not> isPublic quiz) (quizCollection s);
          r = foldl deleteStep (0, quizCollection s) privateQuizzes
      in (fst r, s\<lparr> quizCollection := snd r \<rparr>))"

section \<open>Synchronisation\<close>

text \<open>The body of the first loop of \<^verbatim>\<open>syncQuizzes\<close>, over the public quizzes of the batch.\<close>

definition upsertStep ::
  "(nat \<Rightarrow> string) \<Rightarrow> (nat \<Rightarrow> int) \<Rightarrow> Storage \<Rightarrow> InsertQuiz \<Rightarrow> Storage" where
  "upsertStep uuidv4 now s quizToSync =
     (if \<not> hasUniqueId quizToSync then s
      else
        (case getQuizByUniqueId s (the (uniqueId quizToSync)) of
           Some existingQuiz \<Rightarrow> snd (updateQuiz s (id_q existingQuiz) quizToSync)
         | None \<Rightarrow> snd (createQuiz uuidv4 now s quizToSync)))"

text \<open>The body of the second loop, over the whole batch: a quiz that turned private is retracted.\<close>

definition retractStep :: "Storage \<Rightarrow> InsertQuiz \<Rightarrow> Storage" where
  "retractStep s quizToSync =
     (if \<not> isPublic quizToSync \<and> hasUniqueId quizToSync then
        (case getQuizByUniqueId s (the (uniqueId quizToSync)) of
           Some existingQuiz \<Rightarrow> snd (deleteQuiz s (id_q existingQuiz))
         | None \<Rightarrow> s)
      else s)"

text \<open>\<^verbatim>\<open>syncQuizzes\<close>: the public quizzes returned, and the storage after the call.\<close>

definition syncQuizzes ::
  "(string \<Rightarrow> 'k::linorder) \<Rightarrow> (nat \<Rightarrow> string) \<Rightarrow> (nat \<Rightarrow> int) \<Rightarrow> Storage \<Rightarrow> InsertQuiz list
     \<Rightarrow> Quiz list \<times> Storage" where
  "syncQuizzes ck uuidv4 now s quizzesToSync =
     (let publicQuizzesToSync = filter isPublic quizzesToSync;
          s1 = foldl (upsertStep uuidv4 now) s publicQuizzesToSync;
          s2 = foldl retractStep s1 quizzesToSync;
          s3 = snd (deletePrivateQuizzes s2);
          s4 = snd (removeDuplicateQuizzes ck s3)
      in (getPublicQuizzes s4, s4))"

text \<open>
  The client prepares its batch (\<^verbatim>\<open>preparedQuizzes\<close> in \<^verbatim>\<open>syncPublicQuizzesWithServer\<close>): only the
  public quizzes, each given an identifier from \<^verbatim>\<open>crypto.randomUUID()\<close> when it has none.  The
  generator is a parameter, read at the position of the quiz among the public ones.
\<close>

definition preparedQuizzes :: "(nat \<Rightarrow> string) \<Rightarrow> InsertQuiz list \<Rightarrow> InsertQuiz list" where
  "preparedQuizzes randomUUID quizzes =
     (let publicQuizzes = filter isPublic quizzes in
      filter isPublic
        (map (\<lambda>(i, quiz). if \<not> hasUniqueId quiz then quiz\<lparr> uniqueId := Some (randomUUID i) \<rparr> else quiz)
           (enumerate 0 publicQuizzes)))"

section \<open>Bookkeeping of the passes\<close>

text \<open>The identifiers that the bookkeeping has decided: kept, or listed for removal.\<close>

definition covered :: "Bookkeeping \<Rightarrow> nat set" where
  "covered b = quizzesToKeep b \<union> id_q ` set (duplicatesToRemove b)"


section \<open>Example records\<close>

text \<open>
  Host parameters for the examples: the collation by code units, identifier generators
  and a clock.
\<close>

definition codeUnitOrder :: "string \<Rightarrow> string" where
  "codeUnitOrder = (\<lambda>s. s)"

definition serverIds :: "nat \<Rightarrow> string" where
  "serverIds i = ''server-'' @ showNat i"

definition clientIds :: "nat \<Rightarrow> string" where
  "clientIds i = ''id-'' @ showNat i"

definition fixedClock :: "nat \<Rightarrow> int" where
  "fixedClock i = 0"

definition mkQuestion :: "string \<Rightarrow> string list \<Rightarrow> string \<Rightarrow> Question" where
  "mkQuestion q os a =
     \<lparr> question = q, answerDescription = [], options = os, correctAnswer = a,
       questionImages = [], answerImages = [] \<rparr>"

definition mkQuiz ::
  "nat \<Rightarrow> string option \<Rightarrow> string \<Rightarrow> Question list \<Rightarrow> int option \<Rightarrow> int option \<Rightarrow> Quiz" where
  "mkQuiz i u t qs v c =
     \<lparr> uniqueId = u, title = t, description = [], questions = qs, isPublic = True,
       version = v, createdAt = c, id_q = i \<rparr>"

text \<open>A quiz with two questions of the same text and different answers, in both orders.\<close>

definition sameTextQuiz :: Quiz where
  "sameTextQuiz =
     mkQuiz 1 None ''A'' [mkQuestion ''x'' [''a''] ''a'', mkQuestion ''x'' [''b''] ''b''] (Some 1) (Some 0)"

definition sameTextQuizPermuted :: Quiz where
  "sameTextQuizPermuted =
     mkQuiz 1 None ''A'' [mkQuestion ''x'' [''b''] ''b'', mkQuestion ''x'' [''a''] ''a''] (Some 1) (Some 0)"

text \<open>Two records under one \<^verbatim>\<open>uniqueId\<close>: version 5 created at 100, then version 3 created at 200.\<close>

definition olderVersionLaterDate :: Storage where
  "olderVersionLaterDate =
     \<lparr> quizCollection =
         [mkQuiz 1 (Some ''u'') ''A'' [] (Some 5) (Some 100),
          mkQuiz 2 (Some ''u'') ''B'' [] (Some 3) (Some 200)],
       quizCurrentId = 3 \<rparr>"

text \<open>Two records under the identifier \<^verbatim>\<open>u\<close> with different titles, and one under \<^verbatim>\<open>w\<close>.\<close>

definition threeRecords :: Storage where
  "threeRecords =
     \<lparr> quizCollection =
         [mkQuiz 1 (Some ''u'') ''A'' [] (Some 1) (Some 100),
          mkQuiz 2 (Some ''u'') ''B'' [] (Some 2) (Some 100),
          mkQuiz 3 (Some ''w'') ''C'' [] (Some 1) (Some 100)],
       quizCurrentId = 4 \<rparr>"





text \<open>
  Two quizzes with one title, four and five questions, of which two match; and two quizzes of
  the same content under different identifiers.
\<close>

definition capitalQuestions :: "Question list" where
  "capitalQuestions =
     [mkQuestion ''Capital of France?'' [''Paris'', ''Rome''] ''Paris'',
      mkQuestion ''Capital of Italy?'' [''Paris'', ''Rome''] ''Rome'',
      mkQuestion ''Capital of Spain?'' [''Madrid'', ''Lisbon''] ''Madrid'',
      mkQuestion ''Capital of Peru?'' [''Lima'', ''Quito''] ''Lima'']"




definition sameContentFirst :: Quiz where
  "sameContentFirst = mkQuiz 1 (Some ''u1'') ''Capitals'' capitalQuestions (Some 1) (Some 100)"

definition sameContentSecond :: Quiz where
  "sameContentSecond = mkQuiz 2 (Some ''u2'') ''Capitals'' capitalQuestions (Some 1) (Some 100)"

definition sameContentStorage :: Storage where
  "sameContentStorage =
     \<lparr> quizCollection =
         [sameContentFirst, sameContentSecond, mkQuiz 3 (Some ''u3'') ''Rivers'' [] (Some 1) (Some 100)],
       quizCurrentId = 4 \<rparr>"

text \<open>
  A stale and a newest record under the identifier \<^verbatim>\<open>u\<close>, and a record under \<^verbatim>\<open>w\<close> with the
  content of the newest one.
\<close>

definition staleUnderU :: Quiz where
  "staleUnderU = mkQuiz 1 (Some ''u'') ''Draft'' [] (Some 1) (Some 100)"

definition newestUnderU :: Quiz where
  "newestUnderU = mkQuiz 2 (Some ''u'') ''Capitals'' capitalQuestions (Some 5) (Some 100)"

definition sameContentUnderW :: Quiz where
  "sameContentUnderW = mkQuiz 3 (Some ''w'') ''Capitals'' capitalQuestions (Some 9) (Some 100)"




text \<open>A batch for an empty storage, and a storage that holds two published quizzes.\<close>

definition capitalsNoId :: InsertQuiz where
  "capitalsNoId =
     \<lparr> uniqueId = None, title = ''Capitals'', description = [], questions = capitalQuestions,
       isPublic = True, version = Some 1, createdAt = Some 100 \<rparr>"

definition emptyStorage :: Storage where
  "emptyStorage = \<lparr> quizCollection = [], quizCurrentId = 1 \<rparr>"

definition publishedStorage :: Storage where
  "publishedStorage =
     \<lparr> quizCollection =
         [mkQuiz 1 (Some ''u'') ''Old'' [] (Some 5) (Some 200),
          mkQuiz 2 (Some ''w'') ''Other'' [] (Some 1) (Some 100)],
       quizCurrentId = 3 \<rparr>"

definition staleIncoming :: InsertQuiz where
  "staleIncoming =
     \<lparr> uniqueId = Some ''u'', title = ''New'', description = [], questions = [],
       isPublic = True, version = Some 1, createdAt = Some 100 \<rparr>"

definition nowPrivate :: InsertQuiz where
  "nowPrivate =
     \<lparr> uniqueId = Some ''u'', title = ''Old'', description = [], questions = [],
       isPublic = False, version = Some 5, createdAt = Some 200 \<rparr>"

text \<open>
  The quizzes of a client: a private one, a public one without identifier and a public one
  under the identifier \<^verbatim>\<open>u\<close>.
\<close>

definition privateDraft :: InsertQuiz where
  "privateDraft =
     \<lparr> uniqueId = Some ''p'', title = ''Draft'', description = [], questions = [],
       isPublic = False, version = Some 1, createdAt = Some 100 \<rparr>"

definition mixedQuizzes :: "InsertQuiz list" where
  "mixedQuizzes = [privateDraft, capitalsNoId, staleIncoming]"

section \<open>Properties of the content hash\<close>

lemma sort_key_same_key:
  "\<forall>x\<in>set xs. f x = k \<Longrightarrow> sort_key f xs = xs"
proof (induction xs)
  case Nil
  then show ?case by simp
next
  case (Cons x xs)
  then have "sort_key f xs = xs" by simp
  moreover have "insort_key f x xs = x # xs" using Cons.prems by (cases xs) simp_all
  ultimately show ?case by simp
qed

text \<open>When all questions of a quiz have one normalized text, the collation plays no role.\<close>

lemma createContentHash_same_text:
  assumes "\<forall>q\<in>set (questions quiz). normalized (question q) = t"
  shows "createContentHash ck quiz = createContentHash codeUnitOrder quiz"
proof -
  have "\<forall>d\<in>set (map questionData (questions quiz)). ck (qd_question d) = ck t"
    using assms by (simp add: questionData_def)
  then have a: "sort_key (\<lambda>d. ck (qd_question d)) (map questionData (questions quiz))
      = map questionData (questions quiz)"
    by (rule sort_key_same_key)
  have "\<forall>d\<in>set (map questionData (questions quiz)). qd_question d = t"
    using assms by (simp add: questionData_def)
  then have b: "sort_key (\<lambda>d. qd_question d) (map questionData (questions quiz))
      = map questionData (questions quiz)"
    by (rule sort_key_same_key)
  show ?thesis unfolding createContentHash_def Let_def codeUnitOrder_def a b ..
qed

lemma removeDuplicateQuizzes_same_text:
  assumes "\<forall>quiz\<in>set (quizCollection s). \<forall>q\<in>set (questions quiz). normalized (question q) = t"
  shows "removeDuplicateQuizzes ck s = removeDuplicateQuizzes codeUnitOrder s"
proof -
  have "foldl (firstPassStep ck) b qs = foldl (firstPassStep codeUnitOrder) b qs"
    if "\<forall>quiz\<in>set qs. \<forall>q\<in>set (questions quiz). normalized (question q) = t" for qs b
    using that
  proof (induction qs arbitrary: b)
    case Nil
    then show ?case by simp
  next
    case (Cons a qs)
    have "createContentHash ck a = createContentHash codeUnitOrder a"
      using Cons.prems by (intro createContentHash_same_text[where t = t]) simp
    then have "firstPassStep ck b a = firstPassStep codeUnitOrder b a"
      by (simp add: firstPassStep_def)
    then show ?case using Cons by simp
  qed
  then show ?thesis
    using assms by (simp add: removeDuplicateQuizzes_def findDuplicates_def Let_def)
qed

text \<open>
  What does hold: the options of a question may come in any order, and so may the questions
  when their normalized texts have different collation keys.
\<close>

lemma questionData_options_permuted:
  assumes "mset (options q') = mset (options q)"
    and "question q' = question q" and "correctAnswer q' = correctAnswer q"
  shows "questionData q' = questionData q"
proof -
  have "mset (map normalized (options q')) = mset (map normalized (options q))"
    using assms(1) by (metis mset_map)
  then have "sort (map normalized (options q')) = sort (map normalized (options q))"
    by (intro properties_for_sort) simp_all
  then show ?thesis using assms(2,3) by (simp add: questionData_def)
qed

lemma createContentHash_permuted:
  assumes "title quiz' = title quiz"
    and "mset (map questionData (questions quiz')) = mset (map questionData (questions quiz))"
    and "inj_on (\<lambda>d. ck (qd_question d)) (set (map questionData (questions quiz)))"
  shows "createContentHash ck quiz' = createContentHash ck quiz"
proof -
  have s: "set (map questionData (questions quiz')) = set (map questionData (questions quiz))"
    using assms(2) by (rule mset_eq_setD)
  have "sort_key (\<lambda>d. ck (qd_question d)) (map questionData (questions quiz'))
      = sort_key (\<lambda>d. ck (qd_question d)) (map questionData (questions quiz))"
    using assms(2,3) unfolding s[symmetric] by (intro sort_key_inj_key_eq) simp_all
  then show ?thesis using assms(1) by (simp add: createContentHash_def)
qed

text \<open>
  Claim C5.  The content hash is meant not to depend on the order of the questions, and the
  code sorts them by question text alone.  For a quiz with two questions of the same text
  and different options and answers, exchanging the two questions changes the hash,
  whatever the collation: the stable sort leaves the two in the order of the input.
\<close>

theorem createContentHash_same_text_order_dependent:
  "createContentHash ck sameTextQuiz \<noteq> createContentHash ck sameTextQuizPermuted"
proof -
  have "\<forall>q\<in>set (questions sameTextQuiz). normalized (question q) = ''x''"
    by code_simp
  then have a: "createContentHash ck sameTextQuiz = createContentHash codeUnitOrder sameTextQuiz"
    by (rule createContentHash_same_text)
  have "\<forall>q\<in>set (questions sameTextQuizPermuted). normalized (question q) = ''x''"
    by code_simp
  then have b: "createContentHash ck sameTextQuizPermuted
      = createContentHash codeUnitOrder sameTextQuizPermuted"
    by (rule createContentHash_same_text)
  have "createContentHash codeUnitOrder sameTextQuiz \<noteq> createContentHash codeUnitOrder sameTextQuizPermuted"
    by code_simp
  then show ?thesis unfolding a b .
qed

section \<open>Which copy survives\<close>

text \<open>
  Claim C6.  Both records have a version, and the first has the greater one (5 against 3),
  yet \<^verbatim>\<open>removeDuplicateQuizzes\<close> keeps the second: its later creation date makes
  \<^verbatim>\<open>keepNew\<close> true although the comparison of the versions is decided.
\<close>

theorem removeDuplicateQuizzes_later_date_beats_version:
  "quizCollection (snd (removeDuplicateQuizzes ck olderVersionLaterDate))
     = [mkQuiz 2 (Some ''u'') ''B'' [] (Some 3) (Some 200)]"
proof -
  have "\<forall>quiz\<in>set (quizCollection olderVersionLaterDate).
          \<forall>q\<in>set (questions quiz). normalized (question q) = []"
    by code_simp
  then have a: "removeDuplicateQuizzes ck olderVersionLaterDate
      = removeDuplicateQuizzes codeUnitOrder olderVersionLaterDate"
    by (rule removeDuplicateQuizzes_same_text)
  show ?thesis unfolding a by code_simp
qed

section \<open>The three passes\<close>

subsection \<open>Deleting the duplicates\<close>

lemma snd_foldl_deleteStep:
  "snd (foldl deleteStep acc rem) = filter (\<lambda>q. id_q q \<notin> id_q ` set rem) (snd acc)"
proof (induction rem arbitrary: acc)
  case Nil
  then show ?case by simp
next
  case (Cons r rem)
  have "snd (deleteStep acc r) = filter (\<lambda>q. id_q q \<noteq> id_q r) (snd acc)"
    by (auto simp add: deleteStep_def mapHas_def mapDelete_def list_ex_iff filter_id_conv)
  then show ?case using Cons.IH[of "deleteStep acc r"]
    by (simp add: conj_commute)
qed

subsection \<open>First pass\<close>

lemma firstPass_invariant:
  assumes "distinct (map id_q P)"
  shows "quizzesToKeep (foldl (firstPassStep ck) emptyBookkeeping P) \<subseteq> id_q ` set P \<and>
         (\<forall>q\<in>set P. id_q q \<in> quizzesToKeep (foldl (firstPassStep ck) emptyBookkeeping P) \<longrightarrow>
            contentHashMap (foldl (firstPassStep ck) emptyBookkeeping P) (createContentHash ck q) = Some q) \<and>
         (\<forall>h e. contentHashMap (foldl (firstPassStep ck) emptyBookkeeping P) h = Some e \<longrightarrow> e \<in> set P) \<and>
         id_q ` set P \<subseteq> quizzesToKeep (foldl (firstPassStep ck) emptyBookkeeping P)
            \<union> id_q ` set (duplicatesToRemove (foldl (firstPassStep ck) emptyBookkeeping P))"
  using assms
proof (induction P rule: rev_induct)
  case Nil
  then show ?case by (simp add: emptyBookkeeping_def)
next
  case (snoc quiz P)
  define b where "b = foldl (firstPassStep ck) emptyBookkeeping P"
  have d: "distinct (map id_q P)" and fresh: "\<And>q. q \<in> set P \<Longrightarrow> id_q q \<noteq> id_q quiz"
    using snoc.prems by (auto simp add: image_iff)
  have keep: "quizzesToKeep b \<subseteq> id_q ` set P"
    and hm: "\<And>q. q \<in> set P \<Longrightarrow> id_q q \<in> quizzesToKeep b \<Longrightarrow> contentHashMap b (createContentHash ck q) = Some q"
    and vals: "\<And>h e. contentHashMap b h = Some e \<Longrightarrow> e \<in> set P"
    and cov: "id_q ` set P \<subseteq> quizzesToKeep b \<union> id_q ` set (duplicatesToRemove b)"
    using snoc.IH[OF d] unfolding b_def by auto
  have step: "foldl (firstPassStep ck) emptyBookkeeping (P @ [quiz]) = firstPassStep ck b quiz"
    by (simp add: b_def)
  show ?case
  proof (cases "contentHashMap b (createContentHash ck quiz)")
    case None
    then have eq: "firstPassStep ck b quiz =
        b\<lparr> contentHashMap := (contentHashMap b)(createContentHash ck quiz \<mapsto> quiz),
           quizzesToKeep := insert (id_q quiz) (quizzesToKeep b) \<rparr>"
      by (simp add: firstPassStep_def)
    have "\<And>q. q \<in> set P \<Longrightarrow> id_q q \<in> quizzesToKeep b \<Longrightarrow> createContentHash ck q \<noteq> createContentHash ck quiz"
      using hm None by fastforce
    then show ?thesis
      unfolding step eq using keep hm vals cov fresh by (auto split: if_splits)
  next
    case (Some existingQuiz)
    show ?thesis
    proof (cases "id_q quiz = id_q existingQuiz")
      case True
      then have False using vals[OF Some] fresh by auto
      then show ?thesis ..
    next
      case False
      show ?thesis
      proof (cases "keepNew quiz existingQuiz")
        case True
        then have eq: "firstPassStep ck b quiz =
          b\<lparr> quizzesToKeep := insert (id_q quiz) (quizzesToKeep b - {id_q existingQuiz}),
             contentHashMap := (contentHashMap b)(createContentHash ck quiz \<mapsto> quiz),
             duplicatesToRemove := duplicatesToRemove b @ [existingQuiz] \<rparr>"
          using Some False by (simp add: firstPassStep_def)
        have "\<And>q. q \<in> set P \<Longrightarrow> id_q q \<in> quizzesToKeep b \<Longrightarrow> id_q q \<noteq> id_q existingQuiz
            \<Longrightarrow> createContentHash ck q \<noteq> createContentHash ck quiz"
          using hm Some by fastforce
        then show ?thesis
          unfolding step eq using keep hm vals cov fresh by (auto split: if_splits)
      next
        case False
        then have eq: "firstPassStep ck b quiz =
          b\<lparr> duplicatesToRemove := duplicatesToRemove b @ [quiz] \<rparr>"
          using Some \<open>id_q quiz \<noteq> id_q existingQuiz\<close> by (simp add: firstPassStep_def)
        have "id_q quiz \<notin> quizzesToKeep b" using keep fresh by (metis imageE subsetD)
        with vals show ?thesis
          unfolding step eq using keep hm vals cov fresh by (auto split: if_splits)
      qed
    qed
  qed
qed

lemma firstPass_noop:
  assumes "distinct (map (createContentHash ck) P)"
  shows "quizzesToKeep (foldl (firstPassStep ck) emptyBookkeeping P) = id_q ` set P \<and>
         duplicatesToRemove (foldl (firstPassStep ck) emptyBookkeeping P) = [] \<and>
         (\<forall>h. contentHashMap (foldl (firstPassStep ck) emptyBookkeeping P) h \<noteq> None
              \<longrightarrow> h \<in> createContentHash ck ` set P)"
  using assms
proof (induction P rule: rev_induct)
  case Nil
  then show ?case by (simp add: emptyBookkeeping_def)
next
  case (snoc quiz P)
  define b where "b = foldl (firstPassStep ck) emptyBookkeeping P"
  have IH: "quizzesToKeep b = id_q ` set P" "duplicatesToRemove b = []"
    "\<And>h. contentHashMap b h \<noteq> None \<Longrightarrow> h \<in> createContentHash ck ` set P"
    using snoc unfolding b_def by auto
  have "createContentHash ck quiz \<notin> createContentHash ck ` set P"
    using snoc.prems by auto
  then have "contentHashMap b (createContentHash ck quiz) = None"
    using IH(3) by blast
  then have eq: "firstPassStep ck b quiz =
      b\<lparr> contentHashMap := (contentHashMap b)(createContentHash ck quiz \<mapsto> quiz),
         quizzesToKeep := insert (id_q quiz) (quizzesToKeep b) \<rparr>"
    by (simp add: firstPassStep_def)
  have step: "foldl (firstPassStep ck) emptyBookkeeping (P @ [quiz]) = firstPassStep ck b quiz"
    by (simp add: b_def)
  show ?case unfolding step eq using IH by (auto split: if_splits)
qed

subsection \<open>Second pass\<close>

lemma secondPass_invariant:
  assumes "distinct (map id_q P)" and "uniqueIdMap b0 = Map.empty"
  shows "quizzesToKeep (foldl secondPassStep b0 P) \<subseteq> quizzesToKeep b0 \<and>
         (\<forall>q\<in>set P. id_q q \<in> quizzesToKeep (foldl secondPassStep b0 P) \<and> hasUniqueId q \<longrightarrow>
            uniqueIdMap (foldl secondPassStep b0 P) (the (uniqueId q)) = Some q) \<and>
         (\<forall>u e. uniqueIdMap (foldl secondPassStep b0 P) u = Some e \<longrightarrow> e \<in> set P) \<and>
         quizzesToKeep b0 \<union> id_q ` set (duplicatesToRemove b0)
           \<subseteq> quizzesToKeep (foldl secondPassStep b0 P)
             \<union> id_q ` set (duplicatesToRemove (foldl secondPassStep b0 P))"
  using assms(1)
proof (induction P rule: rev_induct)
  case Nil
  then show ?case using assms(2) by simp
next
  case (snoc quiz P)
  define b where "b = foldl secondPassStep b0 P"
  have d: "distinct (map id_q P)" and fresh: "\<And>q. q \<in> set P \<Longrightarrow> id_q q \<noteq> id_q quiz"
    using snoc.prems by (auto simp add: image_iff)
  have keep: "quizzesToKeep b \<subseteq> quizzesToKeep b0"
    and um: "\<And>q. q \<in> set P \<Longrightarrow> id_q q \<in> quizzesToKeep b \<Longrightarrow> hasUniqueId q
               \<Longrightarrow> uniqueIdMap b (the (uniqueId q)) = Some q"
    and vals: "\<And>u e. uniqueIdMap b u = Some e \<Longrightarrow> e \<in> set P"
    and cov: "quizzesToKeep b0 \<union> id_q ` set (duplicatesToRemove b0)
           \<subseteq> quizzesToKeep b \<union> id_q ` set (duplicatesToRemove b)"
    using snoc.IH[OF d] unfolding b_def by auto
  have step: "foldl secondPassStep b0 (P @ [quiz]) = secondPassStep b quiz"
    by (simp add: b_def)
  show ?case
  proof (cases "id_q quiz \<notin> quizzesToKeep b \<or> \<not> hasUniqueId quiz")
    case True
    then have eq: "secondPassStep b quiz = b" by (simp add: secondPassStep_def)
    show ?thesis unfolding step eq using keep um vals cov True by auto
  next
    case False
    then have kq: "id_q quiz \<in> quizzesToKeep b" and hq: "hasUniqueId quiz" by auto
    show ?thesis
    proof (cases "uniqueIdMap b (the (uniqueId quiz))")
      case None
      then have eq: "secondPassStep b quiz =
          b\<lparr> uniqueIdMap := (uniqueIdMap b)(the (uniqueId quiz) \<mapsto> quiz) \<rparr>"
        using kq hq by (simp add: secondPassStep_def)
      have "\<And>q. q \<in> set P \<Longrightarrow> id_q q \<in> quizzesToKeep b \<Longrightarrow> hasUniqueId q
              \<Longrightarrow> the (uniqueId q) \<noteq> the (uniqueId quiz)"
        using um None by fastforce
      then show ?thesis unfolding step eq using keep um vals cov by (auto split: if_splits)
    next
      case (Some existingQuiz)
      have ne: "id_q quiz \<noteq> id_q existingQuiz" using vals[OF Some] fresh by metis
      show ?thesis
      proof (cases "keepNew quiz existingQuiz")
        case True
        then have eq: "secondPassStep b quiz =
            b\<lparr> quizzesToKeep := quizzesToKeep b - {id_q existingQuiz},
               uniqueIdMap := (uniqueIdMap b)(the (uniqueId quiz) \<mapsto> quiz),
               duplicatesToRemove := duplicatesToRemove b @ [existingQuiz] \<rparr>"
          using kq hq Some ne by (simp add: secondPassStep_def)
        have "\<And>q. q \<in> set P \<Longrightarrow> id_q q \<in> quizzesToKeep b \<Longrightarrow> hasUniqueId q
              \<Longrightarrow> id_q q \<noteq> id_q existingQuiz \<Longrightarrow> the (uniqueId q) \<noteq> the (uniqueId quiz)"
          using um Some by fastforce
        then show ?thesis unfolding step eq using keep um vals cov kq ne
          by (auto split: if_splits)
      next
        case False
        then have eq: "secondPassStep b quiz =
            b\<lparr> quizzesToKeep := quizzesToKeep b - {id_q quiz},
               duplicatesToRemove := duplicatesToRemove b @ [quiz] \<rparr>"
          using kq hq Some ne by (simp add: secondPassStep_def)
        show ?thesis unfolding step eq using keep um vals cov fresh
          by (auto split: if_splits)
      qed
    qed
  qed
qed

lemma secondPass_noop:
  assumes "distinct P"
    and "\<forall>a\<in>set P. \<forall>c\<in>set P. hasUniqueId a \<and> hasUniqueId c \<and> uniqueId a = uniqueId c \<longrightarrow> a = c"
    and "uniqueIdMap b0 = Map.empty"
  shows "quizzesToKeep (foldl secondPassStep b0 P) = quizzesToKeep b0 \<and>
         duplicatesToRemove (foldl secondPassStep b0 P) = duplicatesToRemove b0 \<and>
         titleMap (foldl secondPassStep b0 P) = titleMap b0 \<and>
         (\<forall>u. uniqueIdMap (foldl secondPassStep b0 P) u \<noteq> None \<longrightarrow>
              (\<exists>p\<in>set P. hasUniqueId p \<and> the (uniqueId p) = u))"
  using assms(1,2)
proof (induction P rule: rev_induct)
  case Nil
  then show ?case using assms(3) by simp
next
  case (snoc quiz P)
  define b where "b = foldl secondPassStep b0 P"
  have IH: "quizzesToKeep b = quizzesToKeep b0" "duplicatesToRemove b = duplicatesToRemove b0"
    "titleMap b = titleMap b0"
    "\<And>u. uniqueIdMap b u \<noteq> None \<Longrightarrow> \<exists>p\<in>set P. hasUniqueId p \<and> the (uniqueId p) = u"
    using snoc unfolding b_def by auto
  have step: "foldl secondPassStep b0 (P @ [quiz]) = secondPassStep b quiz"
    by (simp add: b_def)
  show ?case
  proof (cases "id_q quiz \<notin> quizzesToKeep b \<or> \<not> hasUniqueId quiz")
    case True
    then have eq: "secondPassStep b quiz = b" by (simp add: secondPassStep_def)
    show ?thesis unfolding step eq using IH by auto
  next
    case False
    then have kq: "id_q quiz \<in> quizzesToKeep b" and hq: "hasUniqueId quiz" by auto
    have "uniqueIdMap b (the (uniqueId quiz)) = None"
    proof (rule ccontr)
      assume "uniqueIdMap b (the (uniqueId quiz)) \<noteq> None"
      then obtain p where p: "p \<in> set P" "hasUniqueId p" "the (uniqueId p) = the (uniqueId quiz)"
        using IH(4) by blast
      then have "uniqueId p = uniqueId quiz"
        using hq by (auto simp add: hasUniqueId_def split: option.splits)
      then have "p = quiz" using snoc.prems(2) p hq by auto
      then show False using snoc.prems(1) p by auto
    qed
    then have eq: "secondPassStep b quiz =
          b\<lparr> uniqueIdMap := (uniqueIdMap b)(the (uniqueId quiz) \<mapsto> quiz) \<rparr>"
      using kq hq by (simp add: secondPassStep_def)
    show ?thesis unfolding step eq using IH hq by (auto split: if_splits)
  qed
qed

subsection \<open>Third pass\<close>

lemma map_of_pushTitle:
  "map_of (pushTitle t quiz tm) =
     (map_of tm)(t \<mapsto> (case map_of tm t of None \<Rightarrow> [quiz] | Some g \<Rightarrow> g @ [quiz]))"
  by (induction tm) (auto simp add: fun_eq_iff)

lemma keys_pushTitle:
  "map fst (pushTitle t quiz tm) = (if t \<in> fst ` set tm then map fst tm else map fst tm @ [t])"
proof (induction tm)
  case Nil
  then show ?case by simp
next
  case (Cons e tm)
  obtain t' g where e: "e = (t', g)" by (cases e)
  show ?case using Cons unfolding e by (cases "t' = t") (simp_all add: image_iff)
qed

lemma foldl_groupStep:
  "foldl groupStep b P =
     b\<lparr> titleMap := foldl (\<lambda>tm quiz. pushTitle (normalized (title quiz)) quiz tm) (titleMap b)
                      (filter (\<lambda>quiz. id_q quiz \<in> quizzesToKeep b) P) \<rparr>"
proof (induction P rule: rev_induct)
  case Nil
  then show ?case by simp
next
  case (snoc quiz P)
  then show ?case by (simp add: groupStep_def)
qed

lemma groups_invariant:
  "distinct (map fst (foldl (\<lambda>tm quiz. pushTitle (normalized (title quiz)) quiz tm) [] L)) \<and>
   (\<forall>t. map_of (foldl (\<lambda>tm quiz. pushTitle (normalized (title quiz)) quiz tm) [] L) t =
        (if \<exists>q\<in>set L. normalized (title q) = t
         then Some (filter (\<lambda>q. normalized (title q) = t) L) else None))"
proof (induction L rule: rev_induct)
  case Nil
  then show ?case by simp
next
  case (snoc quiz L)
  define tm where "tm = foldl (\<lambda>tm quiz. pushTitle (normalized (title quiz)) quiz tm) [] L"
  have d: "distinct (map fst tm)"
    and m: "\<And>t. map_of tm t = (if \<exists>q\<in>set L. normalized (title q) = t
         then Some (filter (\<lambda>q. normalized (title q) = t) L) else None)"
    using snoc unfolding tm_def by auto
  have step: "foldl (\<lambda>tm quiz. pushTitle (normalized (title quiz)) quiz tm) [] (L @ [quiz])
      = pushTitle (normalized (title quiz)) quiz tm"
    by (simp add: tm_def)
  have "distinct (map fst (pushTitle (normalized (title quiz)) quiz tm))"
    using d by (simp add: keys_pushTitle)
  moreover have "map_of (pushTitle (normalized (title quiz)) quiz tm) t =
        (if \<exists>q\<in>set (L @ [quiz]). normalized (title q) = t
         then Some (filter (\<lambda>q. normalized (title q) = t) (L @ [quiz])) else None)" for t
    unfolding map_of_pushTitle using m by (auto simp add: filter_empty_conv)
  ultimately show ?case unfolding step by blast
qed

text \<open>Every title group is the sublist of the kept quizzes with that title.\<close>

lemma groups_entries:
  assumes "(t, g) \<in> set (foldl (\<lambda>tm quiz. pushTitle (normalized (title quiz)) quiz tm) [] L)"
  shows "g = filter (\<lambda>q. normalized (title q) = t) L"
proof -
  have "distinct (map fst (foldl (\<lambda>tm quiz. pushTitle (normalized (title quiz)) quiz tm) [] L))"
    using groups_invariant[of L] by blast
  then have "map_of (foldl (\<lambda>tm quiz. pushTitle (normalized (title quiz)) quiz tm) [] L) t = Some g"
    using assms by (simp add: map_of_eq_Some_iff)
  then show ?thesis using groups_invariant[of L] by (auto split: if_splits)
qed

lemma groups_cover:
  assumes "q \<in> set L"
  shows "(normalized (title q), filter (\<lambda>p. normalized (title p) = normalized (title q)) L)
           \<in> set (foldl (\<lambda>tm quiz. pushTitle (normalized (title quiz)) quiz tm) [] L)"
proof -
  have "map_of (foldl (\<lambda>tm quiz. pushTitle (normalized (title quiz)) quiz tm) [] L) (normalized (title q))
      = Some (filter (\<lambda>p. normalized (title p) = normalized (title q)) L)"
    using assms groups_invariant[of L] by auto
  then show ?thesis by (rule map_of_SomeD)
qed

lemma covered_remove:
  "covered b \<subseteq> covered (b\<lparr> quizzesToKeep := quizzesToKeep b - {id_q x},
                               duplicatesToRemove := duplicatesToRemove b @ [x] \<rparr>)"
  by (auto simp add: covered_def)

lemma innerLoop_props:
  "quizzesToKeep (innerLoop quiz1 rest b) \<subseteq> quizzesToKeep b \<and>
   covered b \<subseteq> covered (innerLoop quiz1 rest b) \<and>
   (id_q quiz1 \<in> quizzesToKeep (innerLoop quiz1 rest b) \<longrightarrow>
      (\<forall>quiz2\<in>set rest. id_q quiz2 \<in> quizzesToKeep (innerLoop quiz1 rest b)
          \<longrightarrow> \<not> similarQuizzes quiz1 quiz2))"
proof (induction rest arbitrary: b)
  case Nil
  then show ?case by simp
next
  case (Cons quiz2 rest)
  note IH = Cons[of b]
  show ?case
  proof (cases "id_q quiz2 \<in> quizzesToKeep b \<and> similarQuizzes quiz1 quiz2")
    case False
    then have eq: "innerLoop quiz1 (quiz2 # rest) b = innerLoop quiz1 rest b"
      by (auto simp add: similarQuizzes_def)
    have "id_q quiz2 \<in> quizzesToKeep (innerLoop quiz1 rest b) \<longrightarrow> \<not> similarQuizzes quiz1 quiz2"
      using False IH by blast
    then show ?thesis unfolding eq using IH by simp
  next
    case True
    then have k2: "id_q quiz2 \<in> quizzesToKeep b"
      and lc: "lengthsComparable (questions quiz1) (questions quiz2)"
      and th: "4 * min (length (questions quiz1)) (length (questions quiz2))
                \<le> 5 * matchCount (questions quiz1) (questions quiz2)"
      by (simp_all add: similarQuizzes_def)
    show ?thesis
    proof (cases "keepQuiz1 quiz1 quiz2")
      case k1: True
      define b' where "b' = b\<lparr> quizzesToKeep := quizzesToKeep b - {id_q quiz2},
               duplicatesToRemove := duplicatesToRemove b @ [quiz2] \<rparr>"
      have eq: "innerLoop quiz1 (quiz2 # rest) b = innerLoop quiz1 rest b'"
        using k2 lc th k1 by (simp add: b'_def)
      note IH' = Cons[of b']
      have k: "quizzesToKeep b' \<subseteq> quizzesToKeep b" and n2: "id_q quiz2 \<notin> quizzesToKeep b'"
        by (auto simp add: b'_def)
      have c: "covered b \<subseteq> covered b'" unfolding b'_def by (rule covered_remove)
      have 1: "quizzesToKeep (innerLoop quiz1 rest b') \<subseteq> quizzesToKeep b" using IH' k by blast
      have 2: "covered b \<subseteq> covered (innerLoop quiz1 rest b')" using IH' c by blast
      have "id_q quiz2 \<notin> quizzesToKeep (innerLoop quiz1 rest b')" using IH' n2 by blast
      then have 3: "id_q quiz1 \<in> quizzesToKeep (innerLoop quiz1 rest b') \<longrightarrow>
        (\<forall>q\<in>set (quiz2 # rest). id_q q \<in> quizzesToKeep (innerLoop quiz1 rest b')
            \<longrightarrow> \<not> similarQuizzes quiz1 q)"
        using IH' by simp
      show ?thesis unfolding eq using 1 2 3 by blast
    next
      case False
      then have eq: "innerLoop quiz1 (quiz2 # rest) b =
          b\<lparr> quizzesToKeep := quizzesToKeep b - {id_q quiz1},
             duplicatesToRemove := duplicatesToRemove b @ [quiz1] \<rparr>"
        using k2 lc th by simp
      show ?thesis unfolding eq using covered_remove[of b quiz1] by auto
    qed
  qed
qed

lemma innerLoop_noop:
  "\<forall>quiz2\<in>set rest. \<not> similarQuizzes quiz1 quiz2 \<Longrightarrow> innerLoop quiz1 rest b = b"
  by (induction rest) (simp_all add: similarQuizzes_def)

lemma outerLoop_props:
  "quizzesToKeep (outerLoop g b) \<subseteq> quizzesToKeep b \<and>
   covered b \<subseteq> covered (outerLoop g b) \<and>
   sorted_wrt (\<lambda>quiz1 quiz2. \<not> similarQuizzes quiz1 quiz2)
     (filter (\<lambda>quiz. id_q quiz \<in> quizzesToKeep (outerLoop g b)) g)"
proof (induction g arbitrary: b)
  case Nil
  then show ?case by simp
next
  case (Cons quiz1 rest)
  show ?case
  proof (cases "id_q quiz1 \<notin> quizzesToKeep b")
    case True
    then have eq: "outerLoop (quiz1 # rest) b = outerLoop rest b" by simp
    have "id_q quiz1 \<notin> quizzesToKeep (outerLoop rest b)" using True Cons[of b] by auto
    then show ?thesis unfolding eq using Cons[of b] by simp
  next
    case False
    define b1 where "b1 = innerLoop quiz1 rest b"
    have eq: "outerLoop (quiz1 # rest) b = outerLoop rest b1" using False by (simp add: b1_def)
    note i = innerLoop_props[of quiz1 rest b, folded b1_def]
    note o = Cons[of b1]
    have 1: "quizzesToKeep (outerLoop rest b1) \<subseteq> quizzesToKeep b" using i o by blast
    have 2: "covered b \<subseteq> covered (outerLoop rest b1)" using i o by blast
    have "\<forall>quiz2\<in>set rest. id_q quiz1 \<in> quizzesToKeep (outerLoop rest b1) \<longrightarrow>
        id_q quiz2 \<in> quizzesToKeep (outerLoop rest b1) \<longrightarrow> \<not> similarQuizzes quiz1 quiz2"
      using i o by blast
    then have 3: "sorted_wrt (\<lambda>quiz1 quiz2. \<not> similarQuizzes quiz1 quiz2)
       (filter (\<lambda>quiz. id_q quiz \<in> quizzesToKeep (outerLoop rest b1)) (quiz1 # rest))"
      using o by simp
    show ?thesis unfolding eq using 1 2 3 by blast
  qed
qed

lemma outerLoop_noop:
  "sorted_wrt (\<lambda>quiz1 quiz2. \<not> similarQuizzes quiz1 quiz2) g \<Longrightarrow> outerLoop g b = b"
  by (induction g arbitrary: b) (simp_all add: innerLoop_noop)

lemma checkTitleGroup_props:
  "quizzesToKeep (checkTitleGroup b e) \<subseteq> quizzesToKeep b \<and>
   covered b \<subseteq> covered (checkTitleGroup b e) \<and>
   sorted_wrt (\<lambda>quiz1 quiz2. \<not> similarQuizzes quiz1 quiz2)
     (filter (\<lambda>quiz. id_q quiz \<in> quizzesToKeep (checkTitleGroup b e)) (snd e))"
proof (cases "length (snd e) > 1")
  case True
  then show ?thesis using outerLoop_props[of "snd e" b] by (simp add: checkTitleGroup_def)
next
  case False
  then have "length (filter (\<lambda>quiz. id_q quiz \<in> quizzesToKeep b) (snd e)) \<le> 1"
    using length_filter_le[of "\<lambda>quiz. id_q quiz \<in> quizzesToKeep b" "snd e"] by linarith
  then have "sorted_wrt (\<lambda>quiz1 quiz2. \<not> similarQuizzes quiz1 quiz2)
      (filter (\<lambda>quiz. id_q quiz \<in> quizzesToKeep b) (snd e))"
    by (cases "filter (\<lambda>quiz. id_q quiz \<in> quizzesToKeep b) (snd e)") auto
  then show ?thesis using False by (simp add: checkTitleGroup_def)
qed

lemma sorted_wrt_filter_subset:
  assumes "sorted_wrt R (filter (\<lambda>q. f q \<in> A) xs)" and "B \<subseteq> A"
  shows "sorted_wrt R (filter (\<lambda>q. f q \<in> B) xs)"
proof -
  have "filter (\<lambda>q. f q \<in> B) (filter (\<lambda>q. f q \<in> A) xs) = filter (\<lambda>q. f q \<in> B) xs"
    using assms(2) by (auto intro: filter_cong)
  then show ?thesis using sorted_wrt_filter[OF assms(1), of "\<lambda>q. f q \<in> B"] by simp
qed

lemma checkTitleGroups_props:
  "quizzesToKeep (foldl checkTitleGroup b es) \<subseteq> quizzesToKeep b \<and>
   covered b \<subseteq> covered (foldl checkTitleGroup b es) \<and>
   (\<forall>e\<in>set es. sorted_wrt (\<lambda>quiz1 quiz2. \<not> similarQuizzes quiz1 quiz2)
     (filter (\<lambda>quiz. id_q quiz \<in> quizzesToKeep (foldl checkTitleGroup b es)) (snd e)))"
proof (induction es rule: rev_induct)
  case Nil
  then show ?case by simp
next
  case (snoc e es)
  define b1 where "b1 = foldl checkTitleGroup b es"
  have step: "foldl checkTitleGroup b (es @ [e]) = checkTitleGroup b1 e" by (simp add: b1_def)
  have IH1: "quizzesToKeep b1 \<subseteq> quizzesToKeep b"
    and IH2: "covered b \<subseteq> covered b1"
    and IH3: "\<And>e'. e' \<in> set es \<Longrightarrow> sorted_wrt (\<lambda>quiz1 quiz2. \<not> similarQuizzes quiz1 quiz2)
         (filter (\<lambda>quiz. id_q quiz \<in> quizzesToKeep b1) (snd e'))"
    using snoc unfolding b1_def by simp_all
  have c1: "quizzesToKeep (checkTitleGroup b1 e) \<subseteq> quizzesToKeep b1"
    and c2: "covered b1 \<subseteq> covered (checkTitleGroup b1 e)"
    and c3: "sorted_wrt (\<lambda>quiz1 quiz2. \<not> similarQuizzes quiz1 quiz2)
         (filter (\<lambda>quiz. id_q quiz \<in> quizzesToKeep (checkTitleGroup b1 e)) (snd e))"
    using checkTitleGroup_props[of b1 e] by simp_all
  have 1: "quizzesToKeep (checkTitleGroup b1 e) \<subseteq> quizzesToKeep b"
    using IH1 c1 by (rule order_trans[rotated])
  have 2: "covered b \<subseteq> covered (checkTitleGroup b1 e)"
    using IH2 c2 by (rule order_trans)
  have 3: "sorted_wrt (\<lambda>quiz1 quiz2. \<not> similarQuizzes quiz1 quiz2)
     (filter (\<lambda>quiz. id_q quiz \<in> quizzesToKeep (checkTitleGroup b1 e)) (snd e'))"
    if "e' \<in> set (es @ [e])" for e'
  proof (cases "e' = e")
    case True
    then show ?thesis using c3 by simp
  next
    case False
    then have "e' \<in> set es" using that by simp
    then have "sorted_wrt (\<lambda>quiz1 quiz2. \<not> similarQuizzes quiz1 quiz2)
       (filter (\<lambda>quiz. id_q quiz \<in> quizzesToKeep b1) (snd e'))" by (rule IH3)
    then show ?thesis using c1 by (rule sorted_wrt_filter_subset)
  qed
  show ?case unfolding step using 1 2 3 by simp
qed

lemma checkTitleGroups_noop:
  "\<forall>e\<in>set es. sorted_wrt (\<lambda>quiz1 quiz2. \<not> similarQuizzes quiz1 quiz2) (snd e)
     \<Longrightarrow> foldl checkTitleGroup b es = b"
  by (induction es arbitrary: b) (simp_all add: checkTitleGroup_def outerLoop_noop)

subsection \<open>What the passes establish\<close>

lemma sorted_wrt_by_key:
  assumes "\<And>t. sorted_wrt S (filter (\<lambda>x. f x = t) xs)"
  shows "sorted_wrt (\<lambda>a c. f a = f c \<longrightarrow> S a c) xs"
  using assms
proof (induction xs)
  case Nil
  then show ?case by simp
next
  case (Cons x xs)
  have "sorted_wrt S (filter (\<lambda>y. f y = t) xs)" for t
    using Cons.prems[of t] by (cases "f x = t") simp_all
  then have tl: "sorted_wrt (\<lambda>a c. f a = f c \<longrightarrow> S a c) xs" by (rule Cons.IH)
  have "\<forall>y\<in>set xs. f x = f y \<longrightarrow> S x y"
    using Cons.prems[of "f x"] by auto
  then show ?case using tl by simp
qed

lemma findDuplicates_props:
  assumes d: "distinct (map id_q allQuizzes)"
  shows "id_q ` set allQuizzes \<subseteq> covered (findDuplicates ck allQuizzes)"
    and "\<forall>a\<in>set allQuizzes. \<forall>c\<in>set allQuizzes.
           id_q a \<in> quizzesToKeep (findDuplicates ck allQuizzes) \<and>
           id_q c \<in> quizzesToKeep (findDuplicates ck allQuizzes) \<and>
           createContentHash ck a = createContentHash ck c \<longrightarrow> a = c"
    and "\<forall>a\<in>set allQuizzes. \<forall>c\<in>set allQuizzes.
           id_q a \<in> quizzesToKeep (findDuplicates ck allQuizzes) \<and>
           id_q c \<in> quizzesToKeep (findDuplicates ck allQuizzes) \<and>
           hasUniqueId a \<and> uniqueId a = uniqueId c \<longrightarrow> a = c"
    and "sorted_wrt (\<lambda>a c. normalized (title a) = normalized (title c) \<longrightarrow> \<not> similarQuizzes a c)
           (filter (\<lambda>quiz. id_q quiz \<in> quizzesToKeep (findDuplicates ck allQuizzes)) allQuizzes)"
proof -
  define b1 where "b1 = foldl (firstPassStep ck) emptyBookkeeping allQuizzes"
  define b2 where "b2 = foldl secondPassStep (b1\<lparr> uniqueIdMap := Map.empty \<rparr>) allQuizzes"
  define b3 where "b3 = foldl groupStep (b2\<lparr> titleMap := [] \<rparr>) allQuizzes"
  define b4 where "b4 = foldl checkTitleGroup b3 (titleMap b3)"
  define L where "L = filter (\<lambda>quiz. id_q quiz \<in> quizzesToKeep b2) allQuizzes"
  have fd: "findDuplicates ck allQuizzes = b4"
    by (simp add: findDuplicates_def Let_def b1_def b2_def b3_def b4_def)
  note p1 = firstPass_invariant[OF d, of ck, folded b1_def]
  have u0: "uniqueIdMap (b1\<lparr> uniqueIdMap := Map.empty \<rparr>) = Map.empty" by simp
  note p2 = secondPass_invariant[OF d u0, folded b2_def, simplified]
  have b3eq: "b3 = b2\<lparr> titleMap := foldl (\<lambda>tm quiz. pushTitle (normalized (title quiz)) quiz tm) [] L \<rparr>"
    unfolding b3_def L_def by (simp add: foldl_groupStep)
  note p4 = checkTitleGroups_props[of b3 "titleMap b3", folded b4_def]
  have k43: "quizzesToKeep b4 \<subseteq> quizzesToKeep b2" using p4 b3eq by simp
  have k21: "quizzesToKeep b2 \<subseteq> quizzesToKeep b1" using p2 by simp
  have c1: "id_q ` set allQuizzes \<subseteq> covered b1" using p1 by (simp add: covered_def)
  have c2: "covered b1 \<subseteq> covered b2" using p2 by (simp add: covered_def)
  have c3: "covered b2 \<subseteq> covered b4" using p4 b3eq by (simp add: covered_def)
  show "id_q ` set allQuizzes \<subseteq> covered (findDuplicates ck allQuizzes)"
    unfolding fd using c1 c2 c3 by blast
  show "\<forall>a\<in>set allQuizzes. \<forall>c\<in>set allQuizzes.
           id_q a \<in> quizzesToKeep (findDuplicates ck allQuizzes) \<and>
           id_q c \<in> quizzesToKeep (findDuplicates ck allQuizzes) \<and>
           createContentHash ck a = createContentHash ck c \<longrightarrow> a = c"
  proof (intro ballI impI)
    fix a c
    assume a: "a \<in> set allQuizzes" and c: "c \<in> set allQuizzes"
      and h: "id_q a \<in> quizzesToKeep (findDuplicates ck allQuizzes) \<and>
           id_q c \<in> quizzesToKeep (findDuplicates ck allQuizzes) \<and>
           createContentHash ck a = createContentHash ck c"
    have k4: "id_q a \<in> quizzesToKeep b4" "id_q c \<in> quizzesToKeep b4"
      and e: "createContentHash ck a = createContentHash ck c"
      using h unfolding fd by simp_all
    have ka: "id_q a \<in> quizzesToKeep b1" using k4(1) k43 k21 by (meson subsetD)
    have kc: "id_q c \<in> quizzesToKeep b1" using k4(2) k43 k21 by (meson subsetD)
    have m: "\<And>q. q \<in> set allQuizzes \<Longrightarrow> id_q q \<in> quizzesToKeep b1
        \<Longrightarrow> contentHashMap b1 (createContentHash ck q) = Some q"
      using p1 by blast
    have "contentHashMap b1 (createContentHash ck a) = Some a" using a ka by (rule m)
    moreover have "contentHashMap b1 (createContentHash ck c) = Some c" using c kc by (rule m)
    ultimately show "a = c" unfolding e by simp
  qed
  show "\<forall>a\<in>set allQuizzes. \<forall>c\<in>set allQuizzes.
           id_q a \<in> quizzesToKeep (findDuplicates ck allQuizzes) \<and>
           id_q c \<in> quizzesToKeep (findDuplicates ck allQuizzes) \<and>
           hasUniqueId a \<and> uniqueId a = uniqueId c \<longrightarrow> a = c"
  proof (intro ballI impI)
    fix a c
    assume a: "a \<in> set allQuizzes" and c: "c \<in> set allQuizzes"
      and h: "id_q a \<in> quizzesToKeep (findDuplicates ck allQuizzes) \<and>
           id_q c \<in> quizzesToKeep (findDuplicates ck allQuizzes) \<and>
           hasUniqueId a \<and> uniqueId a = uniqueId c"
    have k4: "id_q a \<in> quizzesToKeep b4" "id_q c \<in> quizzesToKeep b4"
      and ha: "hasUniqueId a" and e: "uniqueId a = uniqueId c"
      using h unfolding fd by simp_all
    have ka: "id_q a \<in> quizzesToKeep b2" using k4(1) k43 by (meson subsetD)
    have kc: "id_q c \<in> quizzesToKeep b2" using k4(2) k43 by (meson subsetD)
    have hc: "hasUniqueId c" using ha e by (simp add: hasUniqueId_def)
    have m: "\<And>q. q \<in> set allQuizzes \<Longrightarrow> id_q q \<in> quizzesToKeep b2 \<Longrightarrow> hasUniqueId q
        \<Longrightarrow> uniqueIdMap b2 (the (uniqueId q)) = Some q"
      using p2 by blast
    have "uniqueIdMap b2 (the (uniqueId a)) = Some a" using a ka ha by (rule m)
    moreover have "uniqueIdMap b2 (the (uniqueId c)) = Some c" using c kc hc by (rule m)
    ultimately show "a = c" unfolding e by simp
  qed
  have "sorted_wrt (\<lambda>quiz1 quiz2. \<not> similarQuizzes quiz1 quiz2)
          (filter (\<lambda>x. normalized (title x) = t)
             (filter (\<lambda>quiz. id_q quiz \<in> quizzesToKeep b4) allQuizzes))" for t
  proof (cases "\<exists>q\<in>set L. normalized (title q) = t")
    case True
    then obtain q where q: "q \<in> set L" "normalized (title q) = t" by blast
    have "(t, filter (\<lambda>p. normalized (title p) = t) L) \<in> set (titleMap b3)"
      using groups_cover[OF q(1)] q(2) by (simp add: b3eq)
    then have "sorted_wrt (\<lambda>quiz1 quiz2. \<not> similarQuizzes quiz1 quiz2)
       (filter (\<lambda>quiz. id_q quiz \<in> quizzesToKeep b4) (filter (\<lambda>p. normalized (title p) = t) L))"
      using p4 by fastforce
    moreover have "filter (\<lambda>quiz. id_q quiz \<in> quizzesToKeep b4) (filter (\<lambda>p. normalized (title p) = t) L)
       = filter (\<lambda>x. normalized (title x) = t) (filter (\<lambda>quiz. id_q quiz \<in> quizzesToKeep b4) allQuizzes)"
      unfolding L_def using k43 by (auto intro: filter_cong)
    ultimately show ?thesis by simp
  next
    case False
    then have "filter (\<lambda>x. normalized (title x) = t)
             (filter (\<lambda>quiz. id_q quiz \<in> quizzesToKeep b4) allQuizzes) = []"
      unfolding L_def using k43 by (auto simp add: filter_empty_conv)
    then show ?thesis by simp
  qed
  then show "sorted_wrt (\<lambda>a c. normalized (title a) = normalized (title c) \<longrightarrow> \<not> similarQuizzes a c)
           (filter (\<lambda>quiz. id_q quiz \<in> quizzesToKeep (findDuplicates ck allQuizzes)) allQuizzes)"
    unfolding fd by (rule sorted_wrt_by_key)
qed

lemma findDuplicates_noop:
  assumes d: "distinct (map id_q S)"
    and h: "\<forall>a\<in>set S. \<forall>c\<in>set S. createContentHash ck a = createContentHash ck c \<longrightarrow> a = c"
    and u: "\<forall>a\<in>set S. \<forall>c\<in>set S. hasUniqueId a \<and> hasUniqueId c \<and> uniqueId a = uniqueId c \<longrightarrow> a = c"
    and t: "sorted_wrt (\<lambda>a c. normalized (title a) = normalized (title c) \<longrightarrow> \<not> similarQuizzes a c) S"
  shows "duplicatesToRemove (findDuplicates ck S) = []"
proof -
  define b1 where "b1 = foldl (firstPassStep ck) emptyBookkeeping S"
  define b2 where "b2 = foldl secondPassStep (b1\<lparr> uniqueIdMap := Map.empty \<rparr>) S"
  define b3 where "b3 = foldl groupStep (b2\<lparr> titleMap := [] \<rparr>) S"
  define b4 where "b4 = foldl checkTitleGroup b3 (titleMap b3)"
  have fd: "findDuplicates ck S = b4"
    by (simp add: findDuplicates_def Let_def b1_def b2_def b3_def b4_def)
  have dS: "distinct S" using d by (simp add: distinct_map)
  have "inj_on (createContentHash ck) (set S)" using h by (auto simp add: inj_on_def)
  then have "distinct (map (createContentHash ck) S)" using dS by (simp add: distinct_map)
  note p1 = firstPass_noop[OF this, folded b1_def]
  have u0: "uniqueIdMap (b1\<lparr> uniqueIdMap := Map.empty \<rparr>) = Map.empty" by simp
  note p2 = secondPass_noop[OF dS u u0, folded b2_def, simplified]
  have k2: "quizzesToKeep b2 = id_q ` set S" and r2: "duplicatesToRemove b2 = []"
    using p1 p2 by simp_all
  have "filter (\<lambda>quiz. id_q quiz \<in> quizzesToKeep b2) S = S" unfolding k2 by simp
  then have b3eq: "b3 = b2\<lparr> titleMap := foldl (\<lambda>tm quiz. pushTitle (normalized (title quiz)) quiz tm) [] S \<rparr>"
    unfolding b3_def by (simp add: foldl_groupStep)
  have "sorted_wrt (\<lambda>quiz1 quiz2. \<not> similarQuizzes quiz1 quiz2) (snd e)" if "e \<in> set (titleMap b3)" for e
  proof -
    obtain t' g where e: "e = (t', g)" by (cases e)
    have g: "g = filter (\<lambda>q. normalized (title q) = t') S"
      using that groups_entries[of t' g S] unfolding e b3eq by simp
    have "sorted_wrt (\<lambda>a c. normalized (title a) = normalized (title c) \<longrightarrow> \<not> similarQuizzes a c) g"
      unfolding g using t by (rule sorted_wrt_filter)
    then have "sorted_wrt (\<lambda>quiz1 quiz2. \<not> similarQuizzes quiz1 quiz2) g"
      by (rule sorted_wrt_mono_rel[rotated]) (simp add: g)
    then show ?thesis by (simp add: e)
  qed
  then have "b4 = b3" unfolding b4_def by (intro checkTitleGroups_noop) blast
  then show ?thesis unfolding fd using r2 b3eq by simp
qed

lemma removeDuplicateQuizzes_collection:
  "quizCollection (snd (removeDuplicateQuizzes ck s)) =
     (if length (quizCollection s) \<le> 1 then quizCollection s
      else filter (\<lambda>q. id_q q \<notin> id_q ` set (duplicatesToRemove (findDuplicates ck (quizCollection s))))
             (quizCollection s))"
  by (simp add: removeDuplicateQuizzes_def Let_def snd_foldl_deleteStep)

lemma short_list_cases:
  assumes "length xs \<le> 1"
  obtains "xs = []" | x where "xs = [x]"
  using assms by (cases xs) auto

lemma survivors_props:
  assumes d: "distinct (map id_q (quizCollection s))"
  shows "distinct (map id_q (quizCollection (snd (removeDuplicateQuizzes ck s))))"
    and "\<forall>a\<in>set (quizCollection (snd (removeDuplicateQuizzes ck s))).
         \<forall>c\<in>set (quizCollection (snd (removeDuplicateQuizzes ck s))).
           createContentHash ck a = createContentHash ck c \<longrightarrow> a = c"
    and "\<forall>a\<in>set (quizCollection (snd (removeDuplicateQuizzes ck s))).
         \<forall>c\<in>set (quizCollection (snd (removeDuplicateQuizzes ck s))).
           hasUniqueId a \<and> uniqueId a = uniqueId c \<longrightarrow> a = c"
    and "sorted_wrt (\<lambda>a c. normalized (title a) = normalized (title c) \<longrightarrow> \<not> similarQuizzes a c)
           (quizCollection (snd (removeDuplicateQuizzes ck s)))"
proof -
  define S where "S = quizCollection (snd (removeDuplicateQuizzes ck s))"
  define K where "K = quizzesToKeep (findDuplicates ck (quizCollection s))"
  define R where "R = id_q ` set (duplicatesToRemove (findDuplicates ck (quizCollection s)))"
  have all: "distinct (map id_q S) \<and>
    (\<forall>a\<in>set S. \<forall>c\<in>set S. createContentHash ck a = createContentHash ck c \<longrightarrow> a = c) \<and>
    (\<forall>a\<in>set S. \<forall>c\<in>set S. hasUniqueId a \<and> uniqueId a = uniqueId c \<longrightarrow> a = c) \<and>
    sorted_wrt (\<lambda>a c. normalized (title a) = normalized (title c) \<longrightarrow> \<not> similarQuizzes a c) S"
  proof (cases "length (quizCollection s) \<le> 1")
    case True
    then have "S = quizCollection s" unfolding S_def by (simp add: removeDuplicateQuizzes_collection)
    then have "length S \<le> 1" using True by simp
    then show ?thesis by (rule short_list_cases) simp_all
  next
    case False
    then have S: "S = filter (\<lambda>q. id_q q \<notin> R) (quizCollection s)"
      unfolding S_def R_def by (simp add: removeDuplicateQuizzes_collection)
    note p = findDuplicates_props[OF d, of ck, folded K_def]
    have "id_q ` set (quizCollection s) \<subseteq> K \<union> R"
      using p(1) unfolding covered_def K_def R_def .
    then have inK: "\<And>q. q \<in> set S \<Longrightarrow> q \<in> set (quizCollection s) \<and> id_q q \<in> K"
      unfolding S by auto
    have S2: "S = filter (\<lambda>q. id_q q \<notin> R) (filter (\<lambda>q. id_q q \<in> K) (quizCollection s))"
      using inK unfolding S by (auto intro: filter_cong)
    have 1: "distinct (map id_q S)" unfolding S using d by (rule distinct_map_filter)
    have 2: "\<forall>a\<in>set S. \<forall>c\<in>set S. createContentHash ck a = createContentHash ck c \<longrightarrow> a = c"
      using p(2) inK by blast
    have 3: "\<forall>a\<in>set S. \<forall>c\<in>set S. hasUniqueId a \<and> uniqueId a = uniqueId c \<longrightarrow> a = c"
      using p(3) inK by blast
    have 4: "sorted_wrt (\<lambda>a c. normalized (title a) = normalized (title c) \<longrightarrow> \<not> similarQuizzes a c) S"
      unfolding S2 using p(4) by (rule sorted_wrt_filter)
    show ?thesis using 1 2 3 4 by blast
  qed
  show "distinct (map id_q (quizCollection (snd (removeDuplicateQuizzes ck s))))"
    using all unfolding S_def by blast
  show "\<forall>a\<in>set (quizCollection (snd (removeDuplicateQuizzes ck s))).
         \<forall>c\<in>set (quizCollection (snd (removeDuplicateQuizzes ck s))).
           createContentHash ck a = createContentHash ck c \<longrightarrow> a = c"
    using all unfolding S_def by blast
  show "\<forall>a\<in>set (quizCollection (snd (removeDuplicateQuizzes ck s))).
         \<forall>c\<in>set (quizCollection (snd (removeDuplicateQuizzes ck s))).
           hasUniqueId a \<and> uniqueId a = uniqueId c \<longrightarrow> a = c"
    using all unfolding S_def by blast
  show "sorted_wrt (\<lambda>a c. normalized (title a) = normalized (title c) \<longrightarrow> \<not> similarQuizzes a c)
           (quizCollection (snd (removeDuplicateQuizzes ck s)))"
    using all unfolding S_def by blast
qed


subsection \<open>Kept and removed identifiers are apart\<close>










subsection \<open>Collections of two quizzes\<close>







subsection \<open>A quiz that beats every other one of its class\<close>





section \<open>Deduplication\<close>

text \<open>
  Claim C4.  Deduplication is idempotent: run on the storage that a first run leaves, it
  deletes nothing (the count is 0) and leaves the storage as it is.
\<close>

theorem removeDuplicateQuizzes_idempotent:
  assumes "distinct (map id_q (quizCollection s))"
  shows "removeDuplicateQuizzes ck (snd (removeDuplicateQuizzes ck s))
           = (0, snd (removeDuplicateQuizzes ck s))"
proof -
  define s' where "s' = snd (removeDuplicateQuizzes ck s)"
  note p = survivors_props[OF assms, of ck, folded s'_def]
  have u: "\<forall>a\<in>set (quizCollection s'). \<forall>c\<in>set (quizCollection s').
      hasUniqueId a \<and> hasUniqueId c \<and> uniqueId a = uniqueId c \<longrightarrow> a = c"
    using p(3) by blast
  have "duplicatesToRemove (findDuplicates ck (quizCollection s')) = []"
    using p(1) p(2) u p(4) by (rule findDuplicates_noop)
  then have "removeDuplicateQuizzes ck s' = (0, s')"
    by (simp add: removeDuplicateQuizzes_def Let_def)
  then show ?thesis unfolding s'_def .
qed

theorem removeDuplicateQuizzes_idempotent_witness:
  "distinct (map id_q (quizCollection olderVersionLaterDate)) \<and>
   fst (removeDuplicateQuizzes codeUnitOrder olderVersionLaterDate) = 1 \<and>
   removeDuplicateQuizzes codeUnitOrder (snd (removeDuplicateQuizzes codeUnitOrder olderVersionLaterDate))
     = (0, snd (removeDuplicateQuizzes codeUnitOrder olderVersionLaterDate))"
proof -
  have d: "distinct (map id_q (quizCollection olderVersionLaterDate))" by code_simp
  have f: "fst (removeDuplicateQuizzes codeUnitOrder olderVersionLaterDate) = 1" by code_simp
  show ?thesis using d f removeDuplicateQuizzes_idempotent[OF d, of codeUnitOrder] by blast
qed

text \<open>
  Claim C8, as stated, fails: matching by identifier does not come first in \<^verbatim>\<open>FileStorage\<close>.
  The pass by content hash runs before it, over all records, and the pass by identifier sees
  only the records that the first pass kept.  Of two records under \<^verbatim>\<open>u\<close> the newest one is
  kept when the two are alone; with a third record under \<^verbatim>\<open>w\<close> that has the content of the
  newest one, the first pass removes the newest record of \<^verbatim>\<open>u\<close>, the two records of \<^verbatim>\<open>u\<close> are
  never compared, and the stale one survives.
\<close>

theorem hash_pass_preempts_identifier_counterexample:
  "hasUniqueId staleUnderU \<and> uniqueId staleUnderU = uniqueId newestUnderU \<and>
   keepNew newestUnderU staleUnderU \<and> \<not> keepNew staleUnderU newestUnderU \<and>
   quizCollection (snd (removeDuplicateQuizzes codeUnitOrder
      \<lparr> quizCollection = [staleUnderU, newestUnderU], quizCurrentId = 4 \<rparr>)) = [newestUnderU] \<and>
   createContentHash codeUnitOrder newestUnderU = createContentHash codeUnitOrder sameContentUnderW \<and>
   duplicatesToRemove (foldl (firstPassStep codeUnitOrder) emptyBookkeeping
      [staleUnderU, newestUnderU, sameContentUnderW]) = [newestUnderU] \<and>
   quizCollection (snd (removeDuplicateQuizzes codeUnitOrder
      \<lparr> quizCollection = [staleUnderU, newestUnderU, sameContentUnderW], quizCurrentId = 4 \<rparr>))
     = [staleUnderU, sameContentUnderW]"
  by code_simp

text \<open>
  Claim C8, amended.  After deduplication of a collection keyed by distinct ids at most one
  record survives under each non-empty \<^verbatim>\<open>uniqueId\<close>, whatever the content hashes and titles
  of the records are: two survivors with the same non-empty identifier are the same record.
\<close>

theorem removeDuplicateQuizzes_one_per_uniqueId:
  assumes "distinct (map id_q (quizCollection s))"
  shows "\<forall>a\<in>set (quizCollection (snd (removeDuplicateQuizzes ck s))).
         \<forall>c\<in>set (quizCollection (snd (removeDuplicateQuizzes ck s))).
           hasUniqueId a \<and> uniqueId a = uniqueId c \<longrightarrow> a = c"
  using assms by (rule survivors_props(3))

theorem removeDuplicateQuizzes_one_per_uniqueId_witness:
  "distinct (map id_q (quizCollection threeRecords)) \<and>
   quizCollection (snd (removeDuplicateQuizzes codeUnitOrder threeRecords))
     = [mkQuiz 2 (Some ''u'') ''B'' [] (Some 2) (Some 100), mkQuiz 3 (Some ''w'') ''C'' [] (Some 1) (Some 100)] \<and>
   hasUniqueId (mkQuiz 2 (Some ''u'') ''B'' [] (Some 2) (Some 100)) \<and>
   uniqueId (mkQuiz 2 (Some ''u'') ''B'' [] (Some 2) (Some 100))
     \<noteq> uniqueId (mkQuiz 3 (Some ''w'') ''C'' [] (Some 1) (Some 100))"
proof -
  define r2 where "r2 = mkQuiz 2 (Some ''u'') ''B'' [] (Some 2) (Some 100)"
  define r3 where "r3 = mkQuiz 3 (Some ''w'') ''C'' [] (Some 1) (Some 100)"
  have d: "distinct (map id_q (quizCollection threeRecords))" by code_simp
  have f: "quizCollection (snd (removeDuplicateQuizzes codeUnitOrder threeRecords)) = [r2, r3]"
    unfolding r2_def r3_def by code_simp
  have h: "hasUniqueId r2" unfolding r2_def by code_simp
  have ne: "r2 \<noteq> r3" unfolding r2_def r3_def by code_simp
  note t = removeDuplicateQuizzes_one_per_uniqueId[OF d, of codeUnitOrder, unfolded f]
  have "hasUniqueId r2 \<and> uniqueId r2 = uniqueId r3 \<longrightarrow> r2 = r3"
    using t by simp
  then have u: "uniqueId r2 \<noteq> uniqueId r3" using h ne by blast
  show ?thesis using d f h u unfolding r2_def r3_def by blast
qed

text \<open>
  Claim C10, as stated, fails: of two quizzes with the same content and different non-empty
  identifiers, the first pass (by content hash) lists the second for removal, and it is
  deleted.
\<close>

theorem hash_pass_removes_identified_quiz_counterexample:
  "hasUniqueId sameContentSecond \<and> uniqueId sameContentFirst \<noteq> uniqueId sameContentSecond \<and>
   duplicatesToRemove (foldl (firstPassStep codeUnitOrder) emptyBookkeeping [sameContentFirst, sameContentSecond])
     = [sameContentSecond] \<and>
   quizCollection (snd (removeDuplicateQuizzes codeUnitOrder
      \<lparr> quizCollection = [sameContentFirst, sameContentSecond], quizCurrentId = 3 \<rparr>)) = [sameContentFirst]"
  by code_simp

text \<open>
  Claim C10, amended.  The content-hash pass of \<^verbatim>\<open>FileStorage\<close> is the first pass and takes
  every quiz, with or without \<^verbatim>\<open>uniqueId\<close>: two survivors of the deduplication with the same
  content hash are the same record.
\<close>

theorem removeDuplicateQuizzes_one_per_hash:
  assumes "distinct (map id_q (quizCollection s))"
  shows "\<forall>a\<in>set (quizCollection (snd (removeDuplicateQuizzes ck s))).
         \<forall>c\<in>set (quizCollection (snd (removeDuplicateQuizzes ck s))).
           createContentHash ck a = createContentHash ck c \<longrightarrow> a = c"
  using assms by (rule survivors_props(2))

theorem removeDuplicateQuizzes_one_per_hash_witness:
  "distinct (map id_q (quizCollection sameContentStorage)) \<and>
   createContentHash codeUnitOrder sameContentFirst = createContentHash codeUnitOrder sameContentSecond \<and>
   quizCollection (snd (removeDuplicateQuizzes codeUnitOrder sameContentStorage))
     = [sameContentFirst, mkQuiz 3 (Some ''u3'') ''Rivers'' [] (Some 1) (Some 100)] \<and>
   createContentHash codeUnitOrder sameContentFirst
     \<noteq> createContentHash codeUnitOrder (mkQuiz 3 (Some ''u3'') ''Rivers'' [] (Some 1) (Some 100))"
proof -
  define r3 where "r3 = mkQuiz 3 (Some ''u3'') ''Rivers'' [] (Some 1) (Some 100)"
  have d: "distinct (map id_q (quizCollection sameContentStorage))" by code_simp
  have h: "createContentHash codeUnitOrder sameContentFirst = createContentHash codeUnitOrder sameContentSecond"
    by code_simp
  have f: "quizCollection (snd (removeDuplicateQuizzes codeUnitOrder sameContentStorage))
      = [sameContentFirst, r3]"
    unfolding r3_def by code_simp
  have ne: "sameContentFirst \<noteq> r3" unfolding r3_def by code_simp
  note t = removeDuplicateQuizzes_one_per_hash[OF d, of codeUnitOrder, unfolded f]
  have "createContentHash codeUnitOrder sameContentFirst = createContentHash codeUnitOrder r3
      \<longrightarrow> sameContentFirst = r3"
    using t by simp
  then have u: "createContentHash codeUnitOrder sameContentFirst \<noteq> createContentHash codeUnitOrder r3"
    using ne by blast
  show ?thesis using d h f u unfolding r3_def by blast
qed




section \<open>Order of the arguments\<close>





section \<open>Synchronisation with the shared storage\<close>

lemma find_mapSet_replace:
  assumes "find P qs = Some e" and "P new" and "id_q new = id_q e"
  shows "find P (mapSet new qs) = Some new"
proof -
  have has: "mapHas (id_q new) qs"
    using assms(1,3) by (auto simp add: mapHas_def list_ex_iff find_Some_iff)
  have "find P (map (\<lambda>q. if id_q q = id_q e then new else q) qs) = Some new"
    using assms(1,2)
  proof (induction qs)
    case Nil
    then show ?case by simp
  next
    case (Cons a qs)
    then show ?case by (cases "P a") auto
  qed
  then show ?thesis using has assms(3) by (simp add: mapSet_def)
qed

lemma find_mapSet_new:
  assumes "find P qs = None" and "P new"
  shows "find P (mapSet new qs) = Some new"
proof -
  have n: "\<And>q. q \<in> set qs \<Longrightarrow> \<not> P q" using assms(1) by (simp add: find_None_iff)
  have 1: "find P (qs @ [new]) = Some new"
    using n assms(2) by (induction qs) auto
  have 2: "find P (map (\<lambda>q. if id_q q = id_q new then new else q) qs) = Some new"
    if "mapHas (id_q new) qs"
    using that n
  proof (induction qs)
    case Nil
    then show ?case by (simp add: mapHas_def)
  next
    case (Cons a qs)
    show ?case
    proof (cases "id_q a = id_q new")
      case True
      then show ?thesis using assms(2) by simp
    next
      case False
      then have "mapHas (id_q new) qs" using Cons.prems(1) by (simp add: mapHas_def)
      then show ?thesis using Cons False by simp
    qed
  qed
  show ?thesis using 1 2 by (simp add: mapSet_def)
qed

lemma mapGet_of_found:
  assumes "find P qs = Some e" and "distinct (map id_q qs)"
  shows "mapGet (id_q e) qs = Some e"
proof -
  have e: "e \<in> set qs" using assms(1) by (auto simp add: find_Some_iff)
  show ?thesis unfolding mapGet_def using e assms(2)
  proof (induction qs)
    case Nil
    then show ?case by simp
  next
    case (Cons a qs)
    then show ?case by (cases "a = e") (auto simp add: image_iff)
  qed
qed

lemma mapSet_distinct:
  assumes "distinct (map id_q qs)"
  shows "distinct (map id_q (mapSet new qs))"
proof (cases "mapHas (id_q new) qs")
  case True
  have h: "map (id_q \<circ> (\<lambda>q. if id_q q = id_q new then new else q)) qs = map id_q qs"
    by (induction qs) simp_all
  show ?thesis using True assms by (simp add: mapSet_def h)
next
  case False
  then show ?thesis using assms by (auto simp add: mapSet_def mapHas_def list_ex_iff)
qed

text \<open>Replacing a record by one with the same answer to \<open>P\<close> keeps the number of \<open>P\<close>-records.\<close>

lemma count_mapSet_le:
  assumes "distinct (map id_q qs)"
  shows "length (filter P (mapSet new qs)) \<le> length (filter P qs) + (if P new then 1 else 0)"
proof (cases "mapHas (id_q new) qs")
  case True
  have "length (filter P (map (\<lambda>q. if id_q q = id_q new then new else q) qs))
      \<le> length (filter P qs) + (if P new then 1 else 0)"
    using assms
  proof (induction qs)
    case Nil
    then show ?case by simp
  next
    case (Cons a qs)
    show ?case
    proof (cases "id_q a = id_q new")
      case True
      then have "\<forall>q\<in>set qs. id_q q \<noteq> id_q new" using Cons.prems by (auto simp add: image_iff)
      then have "map (\<lambda>q. if id_q q = id_q new then new else q) qs = qs"
        by (simp add: map_idI)
      then show ?thesis using True by simp
    next
      case False
      then show ?thesis using Cons by (auto split: if_splits)
    qed
  qed
  then show ?thesis using True by (simp add: mapSet_def)
next
  case False
  then show ?thesis by (simp add: mapSet_def)
qed

lemma count_mapSet_same:
  assumes "distinct (map id_q qs)" and "e \<in> set qs" and "id_q new = id_q e" and "P new = P e"
  shows "length (filter P (mapSet new qs)) = length (filter P qs)"
proof -
  have has: "mapHas (id_q new) qs"
    using assms(2,3) by (auto simp add: mapHas_def list_ex_iff)
  have "length (filter P (map (\<lambda>q. if id_q q = id_q e then new else q) qs)) = length (filter P qs)"
    using assms(1,2)
  proof (induction qs)
    case Nil
    then show ?case by simp
  next
    case (Cons a qs)
    show ?case
    proof (cases "a = e")
      case True
      then have "\<forall>q\<in>set qs. id_q q \<noteq> id_q e" using Cons.prems by (auto simp add: image_iff)
      then have "map (\<lambda>q. if id_q q = id_q e then new else q) qs = qs"
        by (simp add: map_idI)
      then show ?thesis using True assms(4) by simp
    next
      case False
      then have "e \<in> set qs" and "id_q a \<noteq> id_q e" using Cons.prems by (auto simp add: image_iff)
      then show ?thesis using Cons by simp
    qed
  qed
  then show ?thesis using has assms(3) by (simp add: mapSet_def)
qed

lemma upsertStep_invariant:
  assumes d: "distinct (map id_q (quizCollection s))"
    and c: "length (filter (\<lambda>q. uniqueId q = Some x) (quizCollection s)) \<le> 1"
  shows "distinct (map id_q (quizCollection (upsertStep uuidv4 now s quiz))) \<and>
         length (filter (\<lambda>q. uniqueId q = Some x) (quizCollection (upsertStep uuidv4 now s quiz))) \<le> 1"
proof (cases "hasUniqueId quiz")
  case False
  then show ?thesis using d c by (simp add: upsertStep_def)
next
  case True
  then obtain u where u: "uniqueId quiz = Some u" "u \<noteq> []"
    by (auto simp add: hasUniqueId_def split: option.splits)
  show ?thesis
  proof (cases "getQuizByUniqueId s u")
    case None
    define newQuiz where "newQuiz = fst (createQuiz uuidv4 now s quiz)"
    have col: "quizCollection (upsertStep uuidv4 now s quiz) = mapSet newQuiz (quizCollection s)"
      using None True u by (simp add: upsertStep_def createQuiz_def Let_def newQuiz_def)
    have nu: "uniqueId newQuiz = Some u" using True u by (simp add: newQuiz_def createQuiz_def Let_def)
    have none: "\<And>q. q \<in> set (quizCollection s) \<Longrightarrow> uniqueId q \<noteq> Some u"
      using None by (simp add: getQuizByUniqueId_def find_None_iff)
    have "length (filter (\<lambda>q. uniqueId q = Some x) (mapSet newQuiz (quizCollection s))) \<le> 1"
    proof (cases "u = x")
      case True
      then have "filter (\<lambda>q. uniqueId q = Some x) (quizCollection s) = []"
        using none by (simp add: filter_empty_conv)
      then show ?thesis using count_mapSet_le[OF d, of "\<lambda>q. uniqueId q = Some x" newQuiz]
        by (simp split: if_splits)
    next
      case False
      then show ?thesis using count_mapSet_le[OF d, of "\<lambda>q. uniqueId q = Some x" newQuiz] c nu by simp
    qed
    then show ?thesis unfolding col using mapSet_distinct[OF d] by simp
  next
    case (Some e)
    then have f: "find (\<lambda>quiz. uniqueId quiz = Some u) (quizCollection s) = Some e"
      by (simp add: getQuizByUniqueId_def)
    then have e: "e \<in> set (quizCollection s)" "uniqueId e = Some u"
      by (auto simp add: find_Some_iff)
    have g: "mapGet (id_q e) (quizCollection s) = Some e"
      using f d by (rule mapGet_of_found)
    define updatedQuiz where "updatedQuiz = the (fst (updateQuiz s (id_q e) quiz))"
    have col: "quizCollection (upsertStep uuidv4 now s quiz) = mapSet updatedQuiz (quizCollection s)"
      using Some True u g by (simp add: upsertStep_def updateQuiz_def Let_def updatedQuiz_def)
    have uu: "uniqueId updatedQuiz = Some u" "id_q updatedQuiz = id_q e"
      using u g by (simp_all add: updatedQuiz_def updateQuiz_def Let_def)
    have "length (filter (\<lambda>q. uniqueId q = Some x) (mapSet updatedQuiz (quizCollection s)))
        = length (filter (\<lambda>q. uniqueId q = Some x) (quizCollection s))"
      using d e(1) uu(2) by (rule count_mapSet_same) (simp add: uu e)
    then show ?thesis unfolding col using mapSet_distinct[OF d] c by simp
  qed
qed

lemma upsert_loop_invariant:
  assumes "distinct (map id_q (quizCollection s))"
    and "length (filter (\<lambda>q. uniqueId q = Some x) (quizCollection s)) \<le> 1"
  shows "distinct (map id_q (quizCollection (foldl (upsertStep uuidv4 now) s batch))) \<and>
         length (filter (\<lambda>q. uniqueId q = Some x) (quizCollection (foldl (upsertStep uuidv4 now) s batch))) \<le> 1"
  using assms
proof (induction batch arbitrary: s)
  case Nil
  then show ?case by simp
next
  case (Cons quiz batch)
  have "distinct (map id_q (quizCollection (upsertStep uuidv4 now s quiz))) \<and>
         length (filter (\<lambda>q. uniqueId q = Some x) (quizCollection (upsertStep uuidv4 now s quiz))) \<le> 1"
    using Cons.prems by (rule upsertStep_invariant)
  then show ?case using Cons.IH[of "upsertStep uuidv4 now s quiz"] by simp
qed

lemma retractStep_subset:
  "\<exists>i. quizCollection (retractStep s quiz) = quizCollection s \<or>
       quizCollection (retractStep s quiz) = mapDelete i (quizCollection s)"
  by (auto simp add: retractStep_def deleteQuiz_def split: option.splits)

lemma retractStep_count:
  "length (filter P (quizCollection (retractStep s quiz))) \<le> length (filter P (quizCollection s))"
proof -
  have "length (filter P (mapDelete i qs)) \<le> length (filter P qs)" for i qs
    unfolding mapDelete_def by (induction qs) auto
  then show ?thesis using retractStep_subset[of s quiz] by auto
qed

lemma retractStep_clears:
  assumes "\<not> isPublic quiz" and "uniqueId quiz = Some x" and "x \<noteq> []"
    and "length (filter (\<lambda>q. uniqueId q = Some x) (quizCollection s)) \<le> 1"
  shows "filter (\<lambda>q. uniqueId q = Some x) (quizCollection (retractStep s quiz)) = []"
proof (cases "getQuizByUniqueId s x")
  case None
  then have "\<And>q. q \<in> set (quizCollection s) \<Longrightarrow> uniqueId q \<noteq> Some x"
    by (simp add: getQuizByUniqueId_def find_None_iff)
  then have "filter (\<lambda>q. uniqueId q = Some x) (quizCollection s) = []"
    by (simp add: filter_empty_conv)
  then show ?thesis using None assms by (simp add: retractStep_def hasUniqueId_def)
next
  case (Some e)
  then have e: "e \<in> set (quizCollection s)" "uniqueId e = Some x"
    by (auto simp add: getQuizByUniqueId_def find_Some_iff)
  then have m: "e \<in> set (filter (\<lambda>q. uniqueId q = Some x) (quizCollection s))" by simp
  have only: "q = e" if "q \<in> set (quizCollection s)" "uniqueId q = Some x" for q
  proof -
    have "q \<in> set (filter (\<lambda>q. uniqueId q = Some x) (quizCollection s))" using that by simp
    then show ?thesis using m assms(4)
      by (cases "filter (\<lambda>q. uniqueId q = Some x) (quizCollection s)") auto
  qed
  have col: "quizCollection (retractStep s quiz) = mapDelete (id_q e) (quizCollection s)"
    using Some assms by (simp add: retractStep_def hasUniqueId_def deleteQuiz_def)
  show ?thesis unfolding col mapDelete_def using only by (auto simp add: filter_empty_conv)
qed

lemma retract_loop_count:
  "length (filter P (quizCollection (foldl retractStep s batch))) \<le> length (filter P (quizCollection s))"
proof (induction batch arbitrary: s)
  case Nil
  then show ?case by simp
next
  case (Cons quiz batch)
  show ?case using Cons[of "retractStep s quiz"] retractStep_count[of P s quiz] by simp
qed

lemma retract_loop_clears:
  assumes "r \<in> set batch" and "\<not> isPublic r" and "uniqueId r = Some x" and "x \<noteq> []"
    and "length (filter (\<lambda>q. uniqueId q = Some x) (quizCollection s)) \<le> 1"
  shows "filter (\<lambda>q. uniqueId q = Some x) (quizCollection (foldl retractStep s batch)) = []"
  using assms(1,5)
proof (induction batch arbitrary: s)
  case Nil
  then show ?case by simp
next
  case (Cons quiz batch)
  have le: "length (filter (\<lambda>q. uniqueId q = Some x) (quizCollection (retractStep s quiz))) \<le> 1"
    using retractStep_count[of "\<lambda>q. uniqueId q = Some x" s quiz] Cons.prems(2) by simp
  show ?case
  proof (cases "quiz = r")
    case True
    have "filter (\<lambda>q. uniqueId q = Some x) (quizCollection (retractStep s quiz)) = []"
      unfolding True using assms(2,3,4) Cons.prems(2) by (rule retractStep_clears)
    then have "length (filter (\<lambda>q. uniqueId q = Some x) (quizCollection (foldl retractStep (retractStep s quiz) batch))) \<le> 0"
      using retract_loop_count[of "\<lambda>q. uniqueId q = Some x" "retractStep s quiz" batch] by simp
    then show ?thesis by simp
  next
    case False
    then have "r \<in> set batch" using Cons.prems(1) by simp
    then show ?thesis using Cons.IH[OF _ le] by simp
  qed
qed

lemma deletePrivateQuizzes_collection:
  "quizCollection (snd (deletePrivateQuizzes s)) =
     filter (\<lambda>q. id_q q \<notin> id_q ` set (filter (\<lambda>quiz. \<not> isPublic quiz) (quizCollection s))) (quizCollection s)"
  by (simp add: deletePrivateQuizzes_def Let_def snd_foldl_deleteStep)

lemma deletePrivateQuizzes_public:
  "q \<in> set (quizCollection (snd (deletePrivateQuizzes s))) \<Longrightarrow> isPublic q \<and> q \<in> set (quizCollection s)"
  unfolding deletePrivateQuizzes_collection by auto

lemma removeDuplicateQuizzes_subset:
  "q \<in> set (quizCollection (snd (removeDuplicateQuizzes ck s))) \<Longrightarrow> q \<in> set (quizCollection s)"
  unfolding removeDuplicateQuizzes_collection by (auto split: if_splits)


lemma set_mapSet:
  "set (mapSet new qs) \<subseteq> insert new (set qs)"
  by (auto simp add: mapSet_def)

lemma mapSet_keeps_uniqueId:
  assumes "distinct (map id_q qs)" and "e \<in> set qs" and "id_q new = id_q e"
    and "uniqueId new = uniqueId e" and "r \<in> set qs"
  shows "uniqueId r \<in> uniqueId ` set (mapSet new qs)"
proof -
  have has: "mapHas (id_q new) qs"
    using assms(2,3) by (auto simp add: mapHas_def list_ex_iff)
  have col: "mapSet new qs = map (\<lambda>q. if id_q q = id_q new then new else q) qs"
    using has by (simp add: mapSet_def)
  have inj: "inj_on id_q (set qs)" using assms(1) by (simp add: distinct_map)
  show ?thesis
  proof (cases "id_q r = id_q new")
    case True
    then have "r = e" using inj assms(2,3,5) by (simp add: inj_on_def)
    then have "uniqueId new = uniqueId r" using assms(4) by simp
    moreover have "new \<in> set (mapSet new qs)" unfolding col using assms(5) True by force
    ultimately show ?thesis by (metis imageI)
  next
    case False
    then have "r \<in> set (mapSet new qs)" unfolding col using assms(5) by force
    then show ?thesis by (rule imageI)
  qed
qed

lemma upsertStep_addressable:
  assumes d: "distinct (map id_q (quizCollection s))"
    and b: "\<forall>r\<in>set (quizCollection s). id_q r < quizCurrentId s"
  shows "distinct (map id_q (quizCollection (upsertStep uuidv4 now s quiz))) \<and>
         (\<forall>r\<in>set (quizCollection (upsertStep uuidv4 now s quiz)).
            id_q r < quizCurrentId (upsertStep uuidv4 now s quiz)) \<and>
         uniqueId ` set (quizCollection s) \<subseteq> uniqueId ` set (quizCollection (upsertStep uuidv4 now s quiz)) \<and>
         (hasUniqueId quiz \<longrightarrow>
            uniqueId quiz \<in> uniqueId ` set (quizCollection (upsertStep uuidv4 now s quiz)))"
proof (cases "hasUniqueId quiz")
  case False
  then show ?thesis using d b by (simp add: upsertStep_def)
next
  case True
  then obtain u where u: "uniqueId quiz = Some u" "u \<noteq> []"
    by (auto simp add: hasUniqueId_def split: option.splits)
  show ?thesis
  proof (cases "getQuizByUniqueId s u")
    case None
    define newQuiz where "newQuiz = fst (createQuiz uuidv4 now s quiz)"
    have st: "upsertStep uuidv4 now s quiz =
        s\<lparr> quizCollection := mapSet newQuiz (quizCollection s), quizCurrentId := quizCurrentId s + 1 \<rparr>"
      using None True u by (simp add: upsertStep_def createQuiz_def Let_def newQuiz_def)
    have nu: "uniqueId newQuiz = Some u" "id_q newQuiz = quizCurrentId s"
      using True u by (simp_all add: newQuiz_def createQuiz_def Let_def)
    have nh: "\<not> mapHas (id_q newQuiz) (quizCollection s)"
      using b nu(2) by (auto simp add: mapHas_def list_ex_iff)
    have col: "mapSet newQuiz (quizCollection s) = quizCollection s @ [newQuiz]"
      using nh by (simp add: mapSet_def)
    have 1: "distinct (map id_q (quizCollection (upsertStep uuidv4 now s quiz)))"
      unfolding st using mapSet_distinct[OF d] by simp
    have 2: "\<forall>r\<in>set (quizCollection (upsertStep uuidv4 now s quiz)).
            id_q r < quizCurrentId (upsertStep uuidv4 now s quiz)"
      unfolding st using b nu(2) by (auto simp add: col)
    have 3: "uniqueId ` set (quizCollection s) \<subseteq> uniqueId ` set (quizCollection (upsertStep uuidv4 now s quiz))"
      unfolding st by (auto simp add: col)
    have 4: "uniqueId quiz \<in> uniqueId ` set (quizCollection (upsertStep uuidv4 now s quiz))"
      unfolding st using nu(1) u(1) by (simp add: col image_iff)
    show ?thesis using 1 2 3 4 by blast
  next
    case (Some e)
    then have f: "find (\<lambda>quiz. uniqueId quiz = Some u) (quizCollection s) = Some e"
      by (simp add: getQuizByUniqueId_def)
    then have e: "e \<in> set (quizCollection s)" "uniqueId e = Some u"
      by (auto simp add: find_Some_iff)
    have g: "mapGet (id_q e) (quizCollection s) = Some e"
      using f d by (rule mapGet_of_found)
    define updatedQuiz where "updatedQuiz = the (fst (updateQuiz s (id_q e) quiz))"
    have st: "upsertStep uuidv4 now s quiz = s\<lparr> quizCollection := mapSet updatedQuiz (quizCollection s) \<rparr>"
      using Some True u g by (simp add: upsertStep_def updateQuiz_def Let_def updatedQuiz_def)
    have uu: "uniqueId updatedQuiz = Some u" "id_q updatedQuiz = id_q e"
      using u g by (simp_all add: updatedQuiz_def updateQuiz_def Let_def)
    have ue: "uniqueId updatedQuiz = uniqueId e" using uu(1) e(2) by simp
    have 1: "distinct (map id_q (quizCollection (upsertStep uuidv4 now s quiz)))"
      unfolding st using mapSet_distinct[OF d] by simp
    have sub: "set (mapSet updatedQuiz (quizCollection s)) \<subseteq> insert updatedQuiz (set (quizCollection s))"
      by (rule set_mapSet)
    have lt: "id_q updatedQuiz < quizCurrentId s" using uu(2) e(1) b by simp
    have 2: "\<forall>r\<in>set (quizCollection (upsertStep uuidv4 now s quiz)).
            id_q r < quizCurrentId (upsertStep uuidv4 now s quiz)"
    proof
      fix r assume "r \<in> set (quizCollection (upsertStep uuidv4 now s quiz))"
      then have "r \<in> insert updatedQuiz (set (quizCollection s))" using sub unfolding st by auto
      then show "id_q r < quizCurrentId (upsertStep uuidv4 now s quiz)"
        unfolding st using lt b by auto
    qed
    have 3: "uniqueId ` set (quizCollection s) \<subseteq> uniqueId ` set (quizCollection (upsertStep uuidv4 now s quiz))"
    proof
      fix x assume "x \<in> uniqueId ` set (quizCollection s)"
      then obtain r where r: "r \<in> set (quizCollection s)" "x = uniqueId r" by auto
      have "uniqueId r \<in> uniqueId ` set (mapSet updatedQuiz (quizCollection s))"
        using d e(1) uu(2) ue r(1) by (rule mapSet_keeps_uniqueId)
      then show "x \<in> uniqueId ` set (quizCollection (upsertStep uuidv4 now s quiz))"
        unfolding st r(2) by simp
    qed
    have "uniqueId e \<in> uniqueId ` set (quizCollection s)" using e(1) by (rule imageI)
    then have 4: "uniqueId quiz \<in> uniqueId ` set (quizCollection (upsertStep uuidv4 now s quiz))"
      using 3 e(2) u(1) by auto
    show ?thesis using 1 2 3 4 by blast
  qed
qed

lemma upsert_loop_addressable:
  assumes "distinct (map id_q (quizCollection s))"
    and "\<forall>r\<in>set (quizCollection s). id_q r < quizCurrentId s"
    and "p \<in> set batch" and "hasUniqueId p"
  shows "uniqueId p \<in> uniqueId ` set (quizCollection (foldl (upsertStep uuidv4 now) s batch))"
proof -
  have inv: "distinct (map id_q (quizCollection (foldl (upsertStep uuidv4 now) s xs))) \<and>
         (\<forall>r\<in>set (quizCollection (foldl (upsertStep uuidv4 now) s xs)).
            id_q r < quizCurrentId (foldl (upsertStep uuidv4 now) s xs)) \<and>
         (\<forall>q\<in>set xs. hasUniqueId q \<longrightarrow>
            uniqueId q \<in> uniqueId ` set (quizCollection (foldl (upsertStep uuidv4 now) s xs)))" for xs
  proof (induction xs rule: rev_induct)
    case Nil
    then show ?case using assms(1,2) by simp
  next
    case (snoc x xs)
    define t where "t = foldl (upsertStep uuidv4 now) s xs"
    have d: "distinct (map id_q (quizCollection t))" and b: "\<forall>r\<in>set (quizCollection t). id_q r < quizCurrentId t"
      and k: "\<forall>q\<in>set xs. hasUniqueId q \<longrightarrow> uniqueId q \<in> uniqueId ` set (quizCollection t)"
      using snoc by (simp_all add: t_def)
    note step = upsertStep_addressable[OF d b, of uuidv4 now x]
    have f: "foldl (upsertStep uuidv4 now) s (xs @ [x]) = upsertStep uuidv4 now t x"
      by (simp add: t_def)
    have 1: "distinct (map id_q (quizCollection (upsertStep uuidv4 now t x)))" using step by blast
    have 2: "\<forall>r\<in>set (quizCollection (upsertStep uuidv4 now t x)). id_q r < quizCurrentId (upsertStep uuidv4 now t x)"
      using step by blast
    have sub: "uniqueId ` set (quizCollection t) \<subseteq> uniqueId ` set (quizCollection (upsertStep uuidv4 now t x))"
      using step by blast
    have new: "hasUniqueId x \<longrightarrow> uniqueId x \<in> uniqueId ` set (quizCollection (upsertStep uuidv4 now t x))"
      using step by blast
    have 3: "\<forall>q\<in>set (xs @ [x]). hasUniqueId q \<longrightarrow>
            uniqueId q \<in> uniqueId ` set (quizCollection (upsertStep uuidv4 now t x))"
    proof (intro ballI impI)
      fix q assume q: "q \<in> set (xs @ [x])" "hasUniqueId q"
      show "uniqueId q \<in> uniqueId ` set (quizCollection (upsertStep uuidv4 now t x))"
      proof (cases "q = x")
        case True
        then show ?thesis using new q(2) by simp
      next
        case False
        then have "q \<in> set xs" using q(1) by simp
        then have "uniqueId q \<in> uniqueId ` set (quizCollection t)" using k q(2) by blast
        then show ?thesis using sub by (rule subsetD[rotated])
      qed
    qed
    show ?case unfolding f by (intro conjI 1 2 3)
  qed
  show ?thesis using inv[of batch] assms(3,4) by blast
qed

lemma upsertStep_origin:
  assumes "r \<in> set (quizCollection (upsertStep uuidv4 now s quiz))"
  shows "r \<in> set (quizCollection s) \<or>
         (hasUniqueId quiz \<and> uniqueId r = uniqueId quiz \<and> title r = title quiz \<and>
          description r = description quiz \<and> questions r = questions quiz \<and> isPublic r = isPublic quiz)"
proof (cases "hasUniqueId quiz")
  case False
  then show ?thesis using assms by (simp add: upsertStep_def)
next
  case True
  then obtain u where u: "uniqueId quiz = Some u" "u \<noteq> []"
    by (auto simp add: hasUniqueId_def split: option.splits)
  show ?thesis
  proof (cases "getQuizByUniqueId s u")
    case None
    define newQuiz where "newQuiz = fst (createQuiz uuidv4 now s quiz)"
    have col: "quizCollection (upsertStep uuidv4 now s quiz) = mapSet newQuiz (quizCollection s)"
      using None True u by (simp add: upsertStep_def createQuiz_def Let_def newQuiz_def)
    have n: "uniqueId newQuiz = uniqueId quiz" "title newQuiz = title quiz"
      "description newQuiz = description quiz" "questions newQuiz = questions quiz"
      "isPublic newQuiz = isPublic quiz"
      using True by (simp_all add: newQuiz_def createQuiz_def Let_def)
    have "r \<in> insert newQuiz (set (quizCollection s))"
      using assms set_mapSet[of newQuiz "quizCollection s"] unfolding col by (rule subsetD[rotated])
    then show ?thesis using n True by auto
  next
    case (Some e)
    show ?thesis
    proof (cases "mapGet (id_q e) (quizCollection s)")
      case None
      then have "upsertStep uuidv4 now s quiz = s"
        using Some True u by (simp add: upsertStep_def updateQuiz_def)
      then show ?thesis using assms by simp
    next
      case (Some e')
      define updatedQuiz where "updatedQuiz = the (fst (updateQuiz s (id_q e) quiz))"
      have col: "quizCollection (upsertStep uuidv4 now s quiz) = mapSet updatedQuiz (quizCollection s)"
        using \<open>getQuizByUniqueId s u = Some e\<close> Some True u
        by (simp add: upsertStep_def updateQuiz_def Let_def updatedQuiz_def)
      have n: "uniqueId updatedQuiz = uniqueId quiz" "title updatedQuiz = title quiz"
        "description updatedQuiz = description quiz" "questions updatedQuiz = questions quiz"
        "isPublic updatedQuiz = isPublic quiz"
        using u Some by (simp_all add: updatedQuiz_def updateQuiz_def Let_def)
      have "r \<in> insert updatedQuiz (set (quizCollection s))"
        using assms set_mapSet[of updatedQuiz "quizCollection s"] unfolding col by (rule subsetD[rotated])
      then show ?thesis using n True by auto
    qed
  qed
qed

lemma upsert_loop_origin:
  "r \<in> set (quizCollection (foldl (upsertStep uuidv4 now) s batch)) \<Longrightarrow>
   r \<in> set (quizCollection s) \<or>
   (\<exists>p\<in>set batch. hasUniqueId p \<and> uniqueId r = uniqueId p \<and> title r = title p \<and>
      description r = description p \<and> questions r = questions p \<and> isPublic r = isPublic p)"
proof (induction batch arbitrary: r rule: rev_induct)
  case Nil
  then show ?case by simp
next
  case (snoc x xs)
  define t where "t = foldl (upsertStep uuidv4 now) s xs"
  have "r \<in> set (quizCollection (upsertStep uuidv4 now t x))" using snoc.prems by (simp add: t_def)
  then have c: "r \<in> set (quizCollection t) \<or>
         (hasUniqueId x \<and> uniqueId r = uniqueId x \<and> title r = title x \<and>
          description r = description x \<and> questions r = questions x \<and> isPublic r = isPublic x)"
    by (rule upsertStep_origin)
  show ?case
  proof (cases "r \<in> set (quizCollection t)")
    case True
    then have "r \<in> set (quizCollection s) \<or>
       (\<exists>p\<in>set xs. hasUniqueId p \<and> uniqueId r = uniqueId p \<and> title r = title p \<and>
        description r = description p \<and> questions r = questions p \<and> isPublic r = isPublic p)"
      unfolding t_def by (rule snoc.IH)
    then show ?thesis by auto
  next
    case False
    then have "hasUniqueId x \<and> uniqueId r = uniqueId x \<and> title r = title x \<and>
          description r = description x \<and> questions r = questions x \<and> isPublic r = isPublic x"
      using c by blast
    then show ?thesis by auto
  qed
qed

lemma retract_loop_subset:
  "set (quizCollection (foldl retractStep s batch)) \<subseteq> set (quizCollection s)"
proof (induction batch rule: rev_induct)
  case Nil
  then show ?case by simp
next
  case (snoc x xs)
  have "set (quizCollection (retractStep t x)) \<subseteq> set (quizCollection t)" for t
    using retractStep_subset[of t x] by (auto simp add: mapDelete_def)
  then show ?case using snoc by fastforce
qed

lemma syncQuizzes_origin:
  assumes "r \<in> set (quizCollection (snd (syncQuizzes ck uuidv4 now s batch)))"
  shows "isPublic r \<and>
         (r \<in> set (quizCollection s) \<or>
          (\<exists>p\<in>set batch. isPublic p \<and> hasUniqueId p \<and> uniqueId r = uniqueId p \<and> title r = title p \<and>
             description r = description p \<and> questions r = questions p))"
proof -
  define s1 where "s1 = foldl (upsertStep uuidv4 now) s (filter isPublic batch)"
  define s2 where "s2 = foldl retractStep s1 batch"
  define s3 where "s3 = snd (deletePrivateQuizzes s2)"
  have st: "snd (syncQuizzes ck uuidv4 now s batch) = snd (removeDuplicateQuizzes ck s3)"
    by (simp add: syncQuizzes_def Let_def s1_def s2_def s3_def)
  have r3: "r \<in> set (quizCollection s3)"
    using assms unfolding st by (rule removeDuplicateQuizzes_subset)
  then have p: "isPublic r" and r2: "r \<in> set (quizCollection s2)"
    unfolding s3_def using deletePrivateQuizzes_public by blast+
  have r1: "r \<in> set (quizCollection s1)"
    using r2 retract_loop_subset[of s1 batch] unfolding s2_def by (rule subsetD[rotated])
  have "r \<in> set (quizCollection s) \<or>
   (\<exists>p\<in>set (filter isPublic batch). hasUniqueId p \<and> uniqueId r = uniqueId p \<and> title r = title p \<and>
      description r = description p \<and> questions r = questions p \<and> isPublic r = isPublic p)"
    using r1 unfolding s1_def by (rule upsert_loop_origin)
  then have "r \<in> set (quizCollection s) \<or>
          (\<exists>p\<in>set batch. isPublic p \<and> hasUniqueId p \<and> uniqueId r = uniqueId p \<and> title r = title p \<and>
             description r = description p \<and> questions r = questions p)"
    by auto
  then show ?thesis using p by simp
qed

lemma preparedQuizzes_map:
  "preparedQuizzes randomUUID quizzes =
     map (\<lambda>(i, quiz). if hasUniqueId quiz then quiz else quiz\<lparr> uniqueId := Some (randomUUID i) \<rparr>)
       (enumerate 0 (filter isPublic quizzes))"
proof -
  have "snd ` set (enumerate 0 (filter isPublic quizzes)) = set (filter isPublic quizzes)"
    by (metis map_snd_enumerate set_map)
  then have pub: "\<forall>x\<in>set (enumerate 0 (filter isPublic quizzes)). isPublic (snd x)"
    by (metis (mono_tags, lifting) imageI mem_Collect_eq set_filter)
  have "filter isPublic
        (map (\<lambda>(i, quiz). if \<not> hasUniqueId quiz then quiz\<lparr> uniqueId := Some (randomUUID i) \<rparr> else quiz) xs)
      = map (\<lambda>(i, quiz). if hasUniqueId quiz then quiz else quiz\<lparr> uniqueId := Some (randomUUID i) \<rparr>) xs"
    if "\<forall>x\<in>set xs. isPublic (snd x)" for xs :: "(nat \<times> InsertQuiz) list"
    using that by (induction xs) (auto split: prod.splits)
  then show ?thesis using pub by (simp add: preparedQuizzes_def Let_def)
qed

lemma preparedQuizzes_identified:
  assumes "\<forall>i. randomUUID i \<noteq> []" and "p \<in> set (preparedQuizzes randomUUID quizzes)"
  shows "isPublic p \<and> hasUniqueId p"
proof -
  have g: "hasUniqueId (if \<not> hasUniqueId quiz then quiz\<lparr> uniqueId := Some (randomUUID i) \<rparr> else quiz)"
    for quiz :: InsertQuiz and i
    using assms(1) by (simp add: hasUniqueId_def)
  show ?thesis using g assms(2) by (auto simp add: preparedQuizzes_def Let_def)
qed

lemma sync_one_prepared:
  assumes "isPublic q" and "\<not> hasUniqueId q" and "\<forall>i. randomUUID i \<noteq> []"
  shows "fst (syncQuizzes ck uuidv4 now \<lparr> quizCollection = [], quizCurrentId = n \<rparr>
                (preparedQuizzes randomUUID [q]))
           = [\<lparr> uniqueId = Some (randomUUID 0), title = title q, description = description q,
                questions = questions q, isPublic = True,
                version = Some (case version q of None \<Rightarrow> 1 | Some v \<Rightarrow> if v = 0 then 1 else v),
                createdAt = Some (case createdAt q of None \<Rightarrow> now n | Some t \<Rightarrow> t),
                id_q = n \<rparr>]"
proof -
  have p: "preparedQuizzes randomUUID [q] = [q\<lparr> uniqueId := Some (randomUUID 0) \<rparr>]"
    using assms(1,2) by (simp add: preparedQuizzes_def Let_def)
  have h: "hasUniqueId (q\<lparr> uniqueId := Some (randomUUID 0) \<rparr>)"
    using assms(3) by (simp add: hasUniqueId_def)
  show ?thesis
    unfolding p using assms(1) h
    by (simp add: syncQuizzes_def Let_def upsertStep_def retractStep_def deletePrivateQuizzes_def
        removeDuplicateQuizzes_def getPublicQuizzes_def getQuizByUniqueId_def createQuiz_def
        mapSet_def mapHas_def)
qed

text \<open>
  The server does not generate an identifier in \<^verbatim>\<open>syncQuizzes\<close>: a quiz that reaches the first
  iteration without \<^verbatim>\<open>uniqueId\<close> leaves the storage as it is.  The identifier of such a quiz
  is the one that the client's preparation gives it before the batch is sent.
\<close>

lemma upsertStep_without_identifier:
  "\<not> hasUniqueId quiz \<Longrightarrow> upsertStep uuidv4 now s quiz = s"
  by (simp add: upsertStep_def)

text \<open>
  Claim C1.  A sync is the client's preparation of its quizzes followed by \<^verbatim>\<open>syncQuizzes\<close>
  on the server, the generator \<^verbatim>\<open>crypto.randomUUID\<close> never returning the empty string.

  \<^item> The prepared batch is the list of the public quizzes, in their order, where a quiz
    that has an identifier is unchanged and a quiz that has none carries the generated
    one; so every prepared quiz is public and has an identifier.

  \<^item> On a storage keyed by distinct ids below the counter, after the first iteration of
    \<^verbatim>\<open>syncQuizzes\<close> over the prepared batch every prepared quiz has a record under its
    identifier.

  \<^item> For every storage and every batch, prepared or not, every record that \<^verbatim>\<open>syncQuizzes\<close>
    leaves is public, and it is a record of the storage before the call or carries the
    identifier, title, description and questions of a public quiz of the batch that has an
    identifier: a private quiz of the batch is never stored.

  \<^item> One public quiz without identifier, prepared and submitted to an empty storage, yields
    a response of exactly one public quiz, with the generated identifier and its own
    version (1 when it has none).
\<close>

theorem sync_filters_and_identifies:
  assumes "\<forall>i. randomUUID i \<noteq> []"
    and "distinct (map id_q (quizCollection s))"
    and "\<forall>r\<in>set (quizCollection s). id_q r < quizCurrentId s"
    and "isPublic q" and "\<not> hasUniqueId q"
  shows "preparedQuizzes randomUUID quizzes =
           map (\<lambda>(i, quiz). if hasUniqueId quiz then quiz else quiz\<lparr> uniqueId := Some (randomUUID i) \<rparr>)
             (enumerate 0 (filter isPublic quizzes)) \<and>
         (\<forall>p\<in>set (preparedQuizzes randomUUID quizzes). isPublic p \<and> hasUniqueId p \<and>
            (\<exists>r\<in>set (quizCollection (foldl (upsertStep uuidv4 now) s
                        (filter isPublic (preparedQuizzes randomUUID quizzes)))).
               uniqueId r = uniqueId p)) \<and>
         (\<forall>r\<in>set (quizCollection (snd (syncQuizzes ck uuidv4 now t batch))).
            isPublic r \<and>
            (r \<in> set (quizCollection t) \<or>
             (\<exists>p\<in>set batch. isPublic p \<and> hasUniqueId p \<and> uniqueId r = uniqueId p \<and> title r = title p \<and>
                description r = description p \<and> questions r = questions p))) \<and>
         fst (syncQuizzes ck uuidv4 now \<lparr> quizCollection = [], quizCurrentId = n \<rparr>
                (preparedQuizzes randomUUID [q]))
           = [\<lparr> uniqueId = Some (randomUUID 0), title = title q, description = description q,
                questions = questions q, isPublic = True,
                version = Some (case version q of None \<Rightarrow> 1 | Some v \<Rightarrow> if v = 0 then 1 else v),
                createdAt = Some (case createdAt q of None \<Rightarrow> now n | Some t \<Rightarrow> t),
                id_q = n \<rparr>]"
proof -
  have 1: "preparedQuizzes randomUUID quizzes =
           map (\<lambda>(i, quiz). if hasUniqueId quiz then quiz else quiz\<lparr> uniqueId := Some (randomUUID i) \<rparr>)
             (enumerate 0 (filter isPublic quizzes))"
    by (rule preparedQuizzes_map)
  have 2: "\<forall>p\<in>set (preparedQuizzes randomUUID quizzes). isPublic p \<and> hasUniqueId p \<and>
            (\<exists>r\<in>set (quizCollection (foldl (upsertStep uuidv4 now) s
                        (filter isPublic (preparedQuizzes randomUUID quizzes)))).
               uniqueId r = uniqueId p)"
  proof
    fix p assume p: "p \<in> set (preparedQuizzes randomUUID quizzes)"
    have ph: "isPublic p \<and> hasUniqueId p" using assms(1) p by (rule preparedQuizzes_identified)
    then have m: "p \<in> set (filter isPublic (preparedQuizzes randomUUID quizzes))" using p by simp
    have h: "hasUniqueId p" using ph by blast
    have "uniqueId p \<in> uniqueId ` set (quizCollection (foldl (upsertStep uuidv4 now) s
                        (filter isPublic (preparedQuizzes randomUUID quizzes))))"
      using assms(2,3) m h by (rule upsert_loop_addressable)
    then have "\<exists>r\<in>set (quizCollection (foldl (upsertStep uuidv4 now) s
                        (filter isPublic (preparedQuizzes randomUUID quizzes)))).
               uniqueId r = uniqueId p"
      by (metis imageE)
    then show "isPublic p \<and> hasUniqueId p \<and>
            (\<exists>r\<in>set (quizCollection (foldl (upsertStep uuidv4 now) s
                        (filter isPublic (preparedQuizzes randomUUID quizzes)))).
               uniqueId r = uniqueId p)"
      using ph by blast
  qed
  have 3: "\<forall>r\<in>set (quizCollection (snd (syncQuizzes ck uuidv4 now t batch))).
            isPublic r \<and>
            (r \<in> set (quizCollection t) \<or>
             (\<exists>p\<in>set batch. isPublic p \<and> hasUniqueId p \<and> uniqueId r = uniqueId p \<and> title r = title p \<and>
                description r = description p \<and> questions r = questions p))"
    using syncQuizzes_origin by blast
  have 4: "fst (syncQuizzes ck uuidv4 now \<lparr> quizCollection = [], quizCurrentId = n \<rparr>
                (preparedQuizzes randomUUID [q]))
           = [\<lparr> uniqueId = Some (randomUUID 0), title = title q, description = description q,
                questions = questions q, isPublic = True,
                version = Some (case version q of None \<Rightarrow> 1 | Some v \<Rightarrow> if v = 0 then 1 else v),
                createdAt = Some (case createdAt q of None \<Rightarrow> now n | Some t \<Rightarrow> t),
                id_q = n \<rparr>]"
    using assms(4,5,1) by (rule sync_one_prepared)
  show ?thesis by (intro conjI 1 2 3 4)
qed


theorem sync_filters_and_identifies_witness:
  "(\<forall>i. clientIds i \<noteq> []) \<and>
   distinct (map id_q (quizCollection publishedStorage)) \<and>
   map id_q (quizCollection publishedStorage) = [1, 2] \<and> quizCurrentId publishedStorage = 3 \<and>
   isPublic capitalsNoId \<and> \<not> hasUniqueId capitalsNoId \<and>
   \<not> isPublic privateDraft \<and> mixedQuizzes = [privateDraft, capitalsNoId, staleIncoming] \<and>
   preparedQuizzes clientIds mixedQuizzes = [capitalsNoId\<lparr> uniqueId := Some ''id-0'' \<rparr>, staleIncoming] \<and>
   map uniqueId (quizCollection (foldl (upsertStep serverIds fixedClock) publishedStorage
        (filter isPublic (preparedQuizzes clientIds mixedQuizzes))))
     = [Some ''u'', Some ''w'', Some ''id-0''] \<and>
   map uniqueId (quizCollection (snd (syncQuizzes codeUnitOrder serverIds fixedClock publishedStorage mixedQuizzes)))
     = [Some ''u'', Some ''w''] \<and>
   fst (syncQuizzes codeUnitOrder serverIds fixedClock emptyStorage (preparedQuizzes clientIds [capitalsNoId]))
     = [\<lparr> uniqueId = Some ''id-0'', title = ''Capitals'', description = [],
          questions = capitalQuestions, isPublic = True, version = Some 1, createdAt = Some 100,
          id_q = 1 \<rparr>]"
proof -
  have h1: "\<forall>i. clientIds i \<noteq> []" by (simp add: clientIds_def)
  have h2: "distinct (map id_q (quizCollection publishedStorage))" by code_simp
  have h3: "\<forall>r\<in>set (quizCollection publishedStorage). id_q r < quizCurrentId publishedStorage"
    by code_simp
  have h3': "map id_q (quizCollection publishedStorage) = [1, 2]" "quizCurrentId publishedStorage = 3"
    by code_simp+
  have h4: "isPublic capitalsNoId" by code_simp
  have h5: "\<not> hasUniqueId capitalsNoId" by code_simp
  have m: "\<not> isPublic privateDraft" "mixedQuizzes = [privateDraft, capitalsNoId, staleIncoming]"
    by code_simp+
  have e: "emptyStorage = \<lparr> quizCollection = [], quizCurrentId = 1 \<rparr>" by (simp add: emptyStorage_def)
  have v: "map (\<lambda>(i, quiz). if hasUniqueId quiz then quiz else quiz\<lparr> uniqueId := Some (clientIds i) \<rparr>)
             (enumerate 0 (filter isPublic mixedQuizzes))
           = [capitalsNoId\<lparr> uniqueId := Some ''id-0'' \<rparr>, staleIncoming]"
    by code_simp
  have u: "map uniqueId (quizCollection (foldl (upsertStep serverIds fixedClock) publishedStorage
        (filter isPublic (preparedQuizzes clientIds mixedQuizzes))))
     = [Some ''u'', Some ''w'', Some ''id-0'']"
    by code_simp
  have w: "map uniqueId (quizCollection (snd (syncQuizzes codeUnitOrder serverIds fixedClock publishedStorage mixedQuizzes)))
     = [Some ''u'', Some ''w'']"
    by code_simp
  have c: "clientIds 0 = ''id-0''" by code_simp
  note t = sync_filters_and_identifies[OF h1 h2 h3 h4 h5,
      of mixedQuizzes serverIds fixedClock codeUnitOrder publishedStorage mixedQuizzes 1, folded e]
  have r1: "preparedQuizzes clientIds mixedQuizzes = [capitalsNoId\<lparr> uniqueId := Some ''id-0'' \<rparr>, staleIncoming]"
    using conjunct1[OF t] unfolding v .
  have r2: "fst (syncQuizzes codeUnitOrder serverIds fixedClock emptyStorage (preparedQuizzes clientIds [capitalsNoId]))
     = [\<lparr> uniqueId = Some (clientIds 0), title = title capitalsNoId, description = description capitalsNoId,
          questions = questions capitalsNoId, isPublic = True,
          version = Some (case version capitalsNoId of None \<Rightarrow> 1 | Some v \<Rightarrow> if v = 0 then 1 else v),
          createdAt = Some (case createdAt capitalsNoId of None \<Rightarrow> fixedClock 1 | Some t \<Rightarrow> t),
          id_q = 1 \<rparr>]"
    using t by blast
  have r2': "fst (syncQuizzes codeUnitOrder serverIds fixedClock emptyStorage (preparedQuizzes clientIds [capitalsNoId]))
     = [\<lparr> uniqueId = Some ''id-0'', title = ''Capitals'', description = [],
          questions = capitalQuestions, isPublic = True, version = Some 1, createdAt = Some 100,
          id_q = 1 \<rparr>]"
    unfolding r2 c by (simp add: capitalsNoId_def)
  show ?thesis by (intro conjI h1 h2 h3' h4 h5 m r1 u w r2')
qed

text \<open>
  Claim C2, as stated, fails: the stored record under the identifier has version 5 and the
  later creation date, the incoming copy has version 1, so the incoming copy does not win;
  the stored record is replaced by it all the same, with version 6.
\<close>

theorem sync_replaces_with_losing_copy_counterexample:
  "getQuizByUniqueId publishedStorage ''u'' = Some (mkQuiz 1 (Some ''u'') ''Old'' [] (Some 5) (Some 200)) \<and>
   \<not> keepNew staleIncoming (mkQuiz 1 (Some ''u'') ''Old'' [] (Some 5) (Some 200)) \<and>
   getQuizByUniqueId (snd (syncQuizzes codeUnitOrder serverIds fixedClock publishedStorage [staleIncoming])) ''u''
     = Some \<lparr> uniqueId = Some ''u'', title = ''New'', description = [], questions = [],
              isPublic = True, version = Some 6, createdAt = Some 100, id_q = 1 \<rparr>"
  by code_simp


text \<open>
  Claim C2, amended.  For a quiz with an identifier, after the upsert step the record found
  under that identifier carries the fields of the incoming quiz, whether or not the incoming
  copy would win: if a record was stored under the identifier, it keeps its \<^verbatim>\<open>id\<close> and its
  version is the stored version plus 1 (1 when the stored version is missing or 0), whatever
  the incoming version is; if none was stored, the quiz is inserted under the next \<^verbatim>\<open>id\<close>
  with its own version (1 when missing or 0).
\<close>

theorem upsert_replaces_or_inserts:
  assumes "hasUniqueId quizToSync" and "distinct (map id_q (quizCollection s))"
  shows "getQuizByUniqueId (upsertStep uuidv4 now s quizToSync) (the (uniqueId quizToSync)) =
     Some (case getQuizByUniqueId s (the (uniqueId quizToSync)) of
        Some existingQuiz \<Rightarrow>
          \<lparr> uniqueId = uniqueId quizToSync, title = title quizToSync,
            description = description quizToSync, questions = questions quizToSync,
            isPublic = isPublic quizToSync,
            version = Some (case version existingQuiz of None \<Rightarrow> 1 | Some v \<Rightarrow> if v = 0 then 1 else v + 1),
            createdAt = (case createdAt quizToSync of None \<Rightarrow> createdAt existingQuiz | Some t \<Rightarrow> Some t),
            id_q = id_q existingQuiz \<rparr>
      | None \<Rightarrow>
          \<lparr> uniqueId = uniqueId quizToSync, title = title quizToSync,
            description = description quizToSync, questions = questions quizToSync,
            isPublic = isPublic quizToSync,
            version = Some (case version quizToSync of None \<Rightarrow> 1 | Some v \<Rightarrow> if v = 0 then 1 else v),
            createdAt = Some (case createdAt quizToSync of None \<Rightarrow> now (quizCurrentId s) | Some t \<Rightarrow> t),
            id_q = quizCurrentId s \<rparr>)"
proof -
  obtain u where u: "uniqueId quizToSync = Some u" "u \<noteq> []"
    using assms(1) by (auto simp add: hasUniqueId_def split: option.splits)
  show ?thesis
  proof (cases "getQuizByUniqueId s u")
    case None
    then have f: "find (\<lambda>quiz. uniqueId quiz = Some u) (quizCollection s) = None"
      by (simp add: getQuizByUniqueId_def)
    show ?thesis
      using None assms(1) u find_mapSet_new[OF f]
      by (simp add: upsertStep_def createQuiz_def getQuizByUniqueId_def Let_def)
  next
    case (Some e)
    then have f: "find (\<lambda>quiz. uniqueId quiz = Some u) (quizCollection s) = Some e"
      by (simp add: getQuizByUniqueId_def)
    have g: "mapGet (id_q e) (quizCollection s) = Some e"
      using f assms(2) by (rule mapGet_of_found)
    show ?thesis
      using Some assms(1) u g find_mapSet_replace[OF f]
      by (simp add: upsertStep_def updateQuiz_def getQuizByUniqueId_def Let_def)
  qed
qed

theorem upsert_replaces_or_inserts_witness:
  "hasUniqueId staleIncoming \<and> distinct (map id_q (quizCollection publishedStorage)) \<and>
   getQuizByUniqueId (upsertStep serverIds fixedClock publishedStorage staleIncoming) ''u''
     = Some \<lparr> uniqueId = Some ''u'', title = ''New'', description = [], questions = [],
              isPublic = True, version = Some 6, createdAt = Some 100, id_q = 1 \<rparr>"
proof -
  have h1: "hasUniqueId staleIncoming" by code_simp
  have h2: "distinct (map id_q (quizCollection publishedStorage))" by code_simp
  have g: "getQuizByUniqueId publishedStorage ''u'' = Some (mkQuiz 1 (Some ''u'') ''Old'' [] (Some 5) (Some 200))"
    by code_simp
  show ?thesis
    using h1 h2 upsert_replaces_or_inserts[OF h1 h2, of serverIds fixedClock]
    by (simp add: staleIncoming_def g mkQuiz_def)
qed


text \<open>
  Claim C3.  When the batch holds a private quiz with an identifier, after \<^verbatim>\<open>syncQuizzes\<close>
  every record of the storage is public, and no record is left under that identifier,
  unless the storage held several records under it before the call (the ones left are then
  public records that share the identifier).
\<close>

theorem sync_retracts_private:
  assumes "distinct (map id_q (quizCollection s))"
    and "r \<in> set quizzesToSync" and "\<not> isPublic r" and "hasUniqueId r"
  shows "(\<forall>q\<in>set (quizCollection (snd (syncQuizzes ck uuidv4 now s quizzesToSync))). isPublic q) \<and>
         ((\<exists>q\<in>set (quizCollection (snd (syncQuizzes ck uuidv4 now s quizzesToSync))). uniqueId q = uniqueId r)
            \<longrightarrow> 2 \<le> length (filter (\<lambda>q. uniqueId q = uniqueId r) (quizCollection s)))"
proof -
  obtain x where x: "uniqueId r = Some x" "x \<noteq> []"
    using assms(4) by (auto simp add: hasUniqueId_def split: option.splits)
  define s1 where "s1 = foldl (upsertStep uuidv4 now) s (filter isPublic quizzesToSync)"
  define s2 where "s2 = foldl retractStep s1 quizzesToSync"
  define s3 where "s3 = snd (deletePrivateQuizzes s2)"
  define s4 where "s4 = snd (removeDuplicateQuizzes ck s3)"
  have s4: "snd (syncQuizzes ck uuidv4 now s quizzesToSync) = s4"
    by (simp add: syncQuizzes_def Let_def s1_def s2_def s3_def s4_def)
  have sub: "\<And>q. q \<in> set (quizCollection s4) \<Longrightarrow> isPublic q \<and> q \<in> set (quizCollection s2)"
    unfolding s4_def s3_def using removeDuplicateQuizzes_subset deletePrivateQuizzes_public by blast
  have pub: "\<forall>q\<in>set (quizCollection s4). isPublic q" using sub by blast
  have gone: "\<not> (\<exists>q\<in>set (quizCollection s4). uniqueId q = Some x)"
    if le: "length (filter (\<lambda>q. uniqueId q = Some x) (quizCollection s)) \<le> 1"
  proof -
    have "length (filter (\<lambda>q. uniqueId q = Some x) (quizCollection s1)) \<le> 1"
      unfolding s1_def using upsert_loop_invariant[OF assms(1) le] by blast
    then have "filter (\<lambda>q. uniqueId q = Some x) (quizCollection s2) = []"
      unfolding s2_def using assms(2,3) x by (intro retract_loop_clears[where r = r]) simp_all
    then have "\<And>q. q \<in> set (quizCollection s2) \<Longrightarrow> uniqueId q \<noteq> Some x"
      by (simp add: filter_empty_conv)
    then show ?thesis using sub by blast
  qed
  have "(\<exists>q\<in>set (quizCollection s4). uniqueId q = Some x)
      \<longrightarrow> 2 \<le> length (filter (\<lambda>q. uniqueId q = Some x) (quizCollection s))"
    using gone by (cases "length (filter (\<lambda>q. uniqueId q = Some x) (quizCollection s)) \<le> 1") auto
  then show ?thesis unfolding s4 x using pub by blast
qed

theorem sync_retracts_private_witness:
  "distinct (map id_q (quizCollection publishedStorage)) \<and> nowPrivate \<in> set [nowPrivate] \<and>
   \<not> isPublic nowPrivate \<and> hasUniqueId nowPrivate \<and>
   quizCollection (snd (syncQuizzes codeUnitOrder serverIds fixedClock publishedStorage [nowPrivate]))
     = [mkQuiz 2 (Some ''w'') ''Other'' [] (Some 1) (Some 100)] \<and>
   \<not> (\<exists>q\<in>set (quizCollection (snd (syncQuizzes codeUnitOrder serverIds fixedClock
            publishedStorage [nowPrivate]))). uniqueId q = uniqueId nowPrivate)"
proof -
  have h1: "distinct (map id_q (quizCollection publishedStorage))" by code_simp
  have h2: "nowPrivate \<in> set [nowPrivate]" by simp
  have h3: "\<not> isPublic nowPrivate" by code_simp
  have h4: "hasUniqueId nowPrivate" by code_simp
  have c: "\<not> 2 \<le> length (filter (\<lambda>q. uniqueId q = uniqueId nowPrivate) (quizCollection publishedStorage))"
    by code_simp
  have i: "quizCollection (snd (syncQuizzes codeUnitOrder serverIds fixedClock publishedStorage [nowPrivate]))
     = [mkQuiz 2 (Some ''w'') ''Other'' [] (Some 1) (Some 100)]" by code_simp
  note t = sync_retracts_private[OF h1 h2 h3 h4, of codeUnitOrder serverIds fixedClock]
  have g: "\<not> (\<exists>q\<in>set (quizCollection (snd (syncQuizzes codeUnitOrder serverIds fixedClock
            publishedStorage [nowPrivate]))). uniqueId q = uniqueId nowPrivate)"
    using t c by blast
  show ?thesis using h1 h2 h3 h4 i g by blast
qed

end
